theory Spec2Isabelle
  imports Main "HOL-Library.Multiset"
begin

section \<open>JavaScript string primitives\<close>

text \<open>
  Strings of the program are modelled as \<^typ>\<open>string\<close>; one \<^typ>\<open>char\<close> stands for one
  code unit in the range 0..255 (Latin-1).  The helpers below follow the ECMAScript
  definitions of \<^verbatim>\<open>String.prototype.trim\<close>, \<^verbatim>\<open>toLowerCase\<close>, \<^verbatim>\<open>split\<close> and of the
  regular-expression classes \<^verbatim>\<open>\w\<close>, \<^verbatim>\<open>\d\<close>, \<^verbatim>\<open>\s\<close> on that range.
\<close>

definition upperChars :: "char list" where
  "upperChars = ''ABCDEFGHIJKLMNOPQRSTUVWXYZ'' @
     [CHR 0xC0, CHR 0xC1, CHR 0xC2, CHR 0xC3, CHR 0xC4, CHR 0xC5, CHR 0xC6, CHR 0xC7,
      CHR 0xC8, CHR 0xC9, CHR 0xCA, CHR 0xCB, CHR 0xCC, CHR 0xCD, CHR 0xCE, CHR 0xCF,
      CHR 0xD0, CHR 0xD1, CHR 0xD2, CHR 0xD3, CHR 0xD4, CHR 0xD5, CHR 0xD6,
      CHR 0xD8, CHR 0xD9, CHR 0xDA, CHR 0xDB, CHR 0xDC, CHR 0xDD, CHR 0xDE]"

definition lowerChars :: "char list" where
  "lowerChars = ''abcdefghijklmnopqrstuvwxyz'' @
     [CHR 0xE0, CHR 0xE1, CHR 0xE2, CHR 0xE3, CHR 0xE4, CHR 0xE5, CHR 0xE6, CHR 0xE7,
      CHR 0xE8, CHR 0xE9, CHR 0xEA, CHR 0xEB, CHR 0xEC, CHR 0xED, CHR 0xEE, CHR 0xEF,
      CHR 0xF0, CHR 0xF1, CHR 0xF2, CHR 0xF3, CHR 0xF4, CHR 0xF5, CHR 0xF6,
      CHR 0xF8, CHR 0xF9, CHR 0xFA, CHR 0xFB, CHR 0xFC, CHR 0xFD, CHR 0xFE]"

definition toLowerChar :: "char \<Rightarrow> char" where
  "toLowerChar c = (case map_of (zip upperChars lowerChars) c of Some d \<Rightarrow> d | None \<Rightarrow> c)"

definition toLowerCase :: "string \<Rightarrow> string" where
  "toLowerCase s = map toLowerChar s"

definition isDigit :: "char \<Rightarrow> bool" where
  "isDigit c = (c \<in> set ''0123456789'')"

definition isWordChar :: "char \<Rightarrow> bool" where
  "isWordChar c =
     (c \<in> set ''abcdefghijklmnopqrstuvwxyzABCDEFGHIJKLMNOPQRSTUVWXYZ0123456789_'')"

definition isJsSpace :: "char \<Rightarrow> bool" where
  "isJsSpace c =
     (c \<in> set [CHR 0x09, CHR 0x0A, CHR 0x0B, CHR 0x0C, CHR 0x0D, CHR 0x20, CHR 0xA0])"

definition trim :: "string \<Rightarrow> string" where
  "trim s = rev (dropWhile isJsSpace (rev (dropWhile isJsSpace s)))"

text \<open>\<^verbatim>\<open>s.split(d)\<close> for a one-character separator: \<^verbatim>\<open>''.split(' ')\<close> is \<^verbatim>\<open>['']\<close>.\<close>

fun splitOn :: "char \<Rightarrow> string \<Rightarrow> string list" where
  "splitOn d [] = [[]]"
| "splitOn d (c # cs) =
     (if c = d then [] # splitOn d cs
      else (case splitOn d cs of [] \<Rightarrow> [[c]] | p # ps \<Rightarrow> (c # p) # ps))"

text \<open>\<^verbatim>\<open>a || b\<close> on two optional strings: the empty string and \<^verbatim>\<open>undefined\<close> are falsy.\<close>

definition jsOr :: "string option \<Rightarrow> string option \<Rightarrow> string option" where
  "jsOr a b = (case a of Some (c # cs) \<Rightarrow> a | _ \<Rightarrow> b)"

definition orEmpty :: "string option \<Rightarrow> string" where
  "orEmpty a = (case a of None \<Rightarrow> [] | Some s \<Rightarrow> s)"



section \<open>Shared-secret middleware (src/middleware/auth.js)\<close>

text \<open>
  The fields of the Express request that the middleware reads.  A header or route
  parameter that is absent (or not a string) is \<^term>\<open>None\<close>.
\<close>

record request =
  req_method :: string
  req_path :: "string option"
  req_params_token :: "string option"
  hdr_authorization :: "string option"
  hdr_x_addon_token :: "string option"

definition routeKeywords :: "string list" where
  "routeKeywords = [''manifest.json'', ''stream'', ''nzb'', ''easynews'']"

text \<open>
  One alternative of \<^verbatim>\<open>(manifest\.json|stream|nzb|easynews)(?:\b|\/)\<close> under the \<^verbatim>\<open>i\<close> flag
  at the start of \<open>s\<close>: the keyword, then a word boundary or a slash.  Every keyword ends in
  a word character, so the boundary holds at the end of input or before a non-word
  character.
\<close>

definition keywordAt :: "string \<Rightarrow> string \<Rightarrow> bool" where
  "keywordAt kw s =
     (toLowerCase (take (length kw) s) = kw \<and>
      (case drop (length kw) s of [] \<Rightarrow> True | c # _ \<Rightarrow> \<not> isWordChar c \<or> c = CHR ''/''))"

text \<open>
  \<^verbatim>\<open>path.match(/^\/([^\/]+)\/(manifest\.json|stream|nzb|easynews)(?:\b|\/)/i)\<close>, returning
  capture group 1 when the expression matches.
\<close>

definition pathMatch :: "string \<Rightarrow> string option" where
  "pathMatch p =
     (case p of
        [] \<Rightarrow> None
      | c # rest \<Rightarrow>
          if c \<noteq> CHR ''/'' then None
          else
            (let seg = takeWhile (\<lambda>x. x \<noteq> CHR ''/'') rest;
                 after = dropWhile (\<lambda>x. x \<noteq> CHR ''/'') rest
             in if seg = [] then None
                else (case after of
                        [] \<Rightarrow> None
                      | _ # tail \<Rightarrow>
                          if list_ex (\<lambda>kw. keywordAt kw tail) routeKeywords then Some seg
                          else None)))"

definition extractTokenFromRequest :: "request \<Rightarrow> string" where
  "extractTokenFromRequest req =
     (case pathMatch (orEmpty (req_path req)) of
        Some seg \<Rightarrow> trim seg
      | None \<Rightarrow>
          (case req_params_token req of
             Some t \<Rightarrow> trim t
           | None \<Rightarrow>
               (case jsOr (hdr_authorization req) (hdr_x_addon_token req) of
                  Some authHeader \<Rightarrow>
                    (let parts = splitOn (CHR '' '') authHeader
                     in if length parts = 2 \<and> toLowerCase (parts ! 0) = ''token''
                        then trim (parts ! 1)
                        else trim authHeader)
                | None \<Rightarrow> [])))"

text \<open>
  The middleware either calls \<^verbatim>\<open>next()\<close> (the downstream handlers run) or answers itself
  with a status code and the \<^verbatim>\<open>error\<close> text of its JSON body.
\<close>

datatype middleware_result = Next | Respond nat string

definition unauthorizedMessage :: string where
  "unauthorizedMessage = ''Unauthorized: invalid or missing addon token''"

text \<open>The first argument is \<^verbatim>\<open>process.env.ADDON_SHARED_SECRET\<close>.\<close>

definition ensureSharedSecret :: "string option \<Rightarrow> request \<Rightarrow> middleware_result" where
  "ensureSharedSecret envSecret req =
     (let secret = trim (orEmpty envSecret)
      in if secret = [] then Next
         else if req_method req = ''OPTIONS'' then Next
         else
           (let providedToken = extractTokenFromRequest req
            in if providedToken = [] \<or> providedToken \<noteq> secret
               then Respond 401 unauthorizedMessage
               else Next))"



section \<open>Ranged file responses (streamFileResponse)\<close>

text \<open>Decimal rendering of an integer below \<open>10\<^sup>2\<^sup>1\<close> inside a template string, and
  \<^verbatim>\<open>Number.parseInt(s, 10)\<close> on a string of decimal digits.\<close>

definition digitChar :: "nat \<Rightarrow> char" where
  "digitChar d = ''0123456789'' ! d"

fun showNat :: "nat \<Rightarrow> string" where
  "showNat n = (if n < 10 then [digitChar n] else showNat (n div 10) @ [digitChar (n mod 10)])"

declare showNat.simps [simp del]

definition digitVal :: "char \<Rightarrow> nat" where
  "digitVal c = (case map_of (zip ''0123456789'' [0, 1, 2, 3, 4, 5, 6, 7, 8, 9]) c of
                   Some d \<Rightarrow> d | None \<Rightarrow> 0)"

text \<open>The integer that a string of decimal digits denotes.\<close>

definition digitsValue :: "string \<Rightarrow> nat" where
  "digitsValue s = foldl (\<lambda>acc c. 10 * acc + digitVal c) 0 s"

text \<open>
  A JavaScript number that is a non-negative integer or \<^verbatim>\<open>Infinity\<close>: the values that
  \<^verbatim>\<open>Number.parseInt\<close> gives for a non-empty string of decimal digits.  \<open>toDouble n\<close> is the
  double nearest to \<open>n\<close> (ties to the even significand): \<open>n\<close> itself below \<open>2\<^sup>5\<^sup>3\<close>, a
  multiple of a power of two with a significand of 53 bits above, and \<^verbatim>\<open>Infinity\<close> from
  \<open>2\<^sup>1\<^sup>0\<^sup>2\<^sup>4 - 2\<^sup>9\<^sup>7\<^sup>0\<close> on (strings of 309 digits and more).
\<close>

datatype jsnum = Finite nat | PosInfinity

definition exactLimit :: nat where
  "exactLimit = 2 ^ 53"

definition doubleLimit :: nat where
  "doubleLimit = 2 ^ 1024"

fun bitLength :: "nat \<Rightarrow> nat" where
  "bitLength n = (if n = 0 then 0 else Suc (bitLength (n div 2)))"

declare bitLength.simps [simp del]

definition toDouble :: "nat \<Rightarrow> jsnum" where
  "toDouble n =
     (if n < exactLimit then Finite n
      else
        (let e = bitLength n - 53;
             q = n div 2 ^ e;
             r = n mod 2 ^ e;
             half = 2 ^ (e - 1);
             m = (if r > half \<or> (r = half \<and> odd q) then q + 1 else q)
         in if m * 2 ^ e \<ge> doubleLimit then PosInfinity else Finite (m * 2 ^ e)))"

definition parseInt :: "string \<Rightarrow> jsnum" where
  "parseInt s = toDouble (digitsValue s)"

text \<open>\<^verbatim>\<open>if (Number.isFinite(parsed) && parsed >= 0) { bound = parsed; }\<close>: the bound keeps its
  value when the parsed number is not finite.\<close>

definition finiteOr :: "int \<Rightarrow> jsnum \<Rightarrow> int" where
  "finiteOr bound parsed = (case parsed of Finite n \<Rightarrow> int n | PosInfinity \<Rightarrow> bound)"

text \<open>\<^verbatim>\<open>/^bytes=\d*-\d*$/.test(h)\<close>\<close>

definition rangeHeaderMatches :: "string \<Rightarrow> bool" where
  "rangeHeaderMatches h =
     (take 6 h = ''bytes='' \<and>
      (case dropWhile isDigit (drop 6 h) of
         [] \<Rightarrow> False
       | c # b \<Rightarrow> c = CHR ''-'' \<and> list_all isDigit b))"

text \<open>Element \<open>i\<close> of an array produced by \<^verbatim>\<open>split\<close>; a missing element is \<^verbatim>\<open>undefined\<close>,
  which the code treats like the empty string.\<close>

definition part :: "string list \<Rightarrow> nat \<Rightarrow> string" where
  "part ps i = (if i < length ps then ps ! i else [])"

text \<open>The file behind \<^verbatim>\<open>absolutePath\<close>: what \<^verbatim>\<open>safeStat\<close> reports and the bytes a read stream
  delivers.  \<^verbatim>\<open>stats.size\<close> is the length of the contents.\<close>

record file_stats =
  st_isFile :: bool
  st_mtime :: string
  st_contents :: "nat list"

record response =
  res_status :: nat
  res_headers :: "string \<rightharpoonup> string"
  res_body :: "nat list"

datatype pipe_outcome = PipeOk | PrematureClose | PipeError

datatype stream_result = NotServed | Served response | Raised string

definition setHeader :: "string \<Rightarrow> string \<Rightarrow> response \<Rightarrow> response" where
  "setHeader k v res = res\<lparr>res_headers := (res_headers res)(k \<mapsto> v)\<rparr>"

text \<open>
  \<open>streamFileResponse rangeHeader res stats emulateHead pipe\<close>: \<open>rangeHeader\<close> is
  \<^verbatim>\<open>req.headers.range\<close>, \<open>res\<close> the response object as the caller hands it over, \<open>stats\<close>
  the result of \<^verbatim>\<open>existingStats || safeStat(absolutePath)\<close>, and \<open>pipe\<close> how the pipeline
  from the read stream to the response ends.  The read stream delivers the bytes
  \<open>start..end\<close> inclusive; \<^verbatim>\<open>fs.createReadStream\<close> raises when \<open>end\<close> is negative.
\<close>

definition streamFileResponse ::
  "string option \<Rightarrow> response \<Rightarrow> file_stats option \<Rightarrow> bool \<Rightarrow> pipe_outcome \<Rightarrow> stream_result" where
  "streamFileResponse rangeHeader res0 statsOpt emulateHead pipe =
     (case statsOpt of
        None \<Rightarrow> NotServed
      | Some stats \<Rightarrow>
          if \<not> st_isFile stats then NotServed
          else
            (let totalSize = int (length (st_contents stats));
                 res1 = setHeader ''Content-Type'' ''application/octet-stream''
                          (setHeader ''Last-Modified'' (st_mtime stats)
                            (setHeader ''Accept-Ranges'' ''bytes'' res0))
             in if emulateHead
                then Served ((setHeader ''Content-Length'' (showNat (nat totalSize)) res1)
                               \<lparr>res_status := 200, res_body := []\<rparr>)
                else
                  (let ranged = (case rangeHeader of
                                   None \<Rightarrow> False
                                 | Some h \<Rightarrow> h \<noteq> [] \<and> rangeHeaderMatches h);
                       rangeSpec = part (splitOn (CHR ''='') (orEmpty rangeHeader)) 1;
                       rangeStart = part (splitOn (CHR ''-'') rangeSpec) 0;
                       rangeEnd = part (splitOn (CHR ''-'') rangeSpec) 1;
                       start = (if ranged \<and> rangeStart \<noteq> []
                                then finiteOr 0 (parseInt rangeStart) else 0);
                       end1 = (if ranged \<and> rangeEnd \<noteq> []
                               then finiteOr (totalSize - 1) (parseInt rangeEnd)
                               else totalSize - 1)
                   in if ranged \<and> start \<ge> totalSize
                      then Served ((setHeader ''Content-Range''
                                      (''bytes */'' @ showNat (nat totalSize)) res1)
                                     \<lparr>res_status := 416, res_body := []\<rparr>)
                      else
                        (let end2 = (if ranged \<and> (end1 \<ge> totalSize \<or> end1 < start)
                                     then totalSize - 1 else end1);
                             statusCode = (if ranged then 206 else 200 :: nat);
                             chunkSize = end2 - start + 1
                         in if end2 < 0 then Raised ''ERR_OUT_OF_RANGE''
                            else
                              (let body = take (nat chunkSize) (drop (nat start) (st_contents stats));
                                   res2 = (if statusCode = 206
                                           then (setHeader ''Content-Length'' (showNat (nat chunkSize))
                                                  (setHeader ''Content-Range''
                                                     (''bytes '' @ showNat (nat start) @ ''-'' @
                                                      showNat (nat end2) @ ''/'' @
                                                      showNat (nat totalSize)) res1))
                                                \<lparr>res_status := 206\<rparr>
                                           else (setHeader ''Content-Length''
                                                   (showNat (nat totalSize)) res1)
                                                \<lparr>res_status := 200\<rparr>)
                               in (case pipe of
                                     PipeOk \<Rightarrow> Served (res2\<lparr>res_body := body\<rparr>)
                                   | PrematureClose \<Rightarrow> Served (res2\<lparr>res_body := body\<rparr>)
                                   | PipeError \<Rightarrow> Raised ''pipeline error''))))))"

definition emptyResponse :: response where
  "emptyResponse = \<lparr>res_status = 200, res_headers = Map.empty, res_body = []\<rparr>"

definition resultStatus :: "stream_result \<Rightarrow> nat option" where
  "resultStatus r = (case r of Served res \<Rightarrow> Some (res_status res) | _ \<Rightarrow> None)"

definition resultHeader :: "stream_result \<Rightarrow> string \<Rightarrow> string option" where
  "resultHeader r k = (case r of Served res \<Rightarrow> res_headers res k | _ \<Rightarrow> None)"

definition resultBody :: "stream_result \<Rightarrow> nat list option" where
  "resultBody r = (case r of Served res \<Rightarrow> Some (res_body res) | _ \<Rightarrow> None)"


section \<open>Triage decisions (services/triage/index.js, triage runner)\<close>

text \<open>
  An archive finding as the analyzer pushes it; \<open>f_status\<close> is \<^term>\<open>None\<close> when the field
  is missing.  A decision is what \<^verbatim>\<open>buildDecision\<close> returns: the verdict string, the blocker
  and warning sets turned into arrays, and the meta fields.
\<close>

record finding =
  f_source :: string
  f_status :: "string option"

record decision_meta =
  m_fileCount :: "nat option"
  m_nzbIndex :: "nat option"
  m_archiveFindings :: "finding list"

record triage_decision =
  d_decision :: string
  d_blockers :: "string list"
  d_warnings :: "string list"
  d_fileCount :: "nat option"
  d_nzbIndex :: "nat option"
  d_archiveFindings :: "finding list"

definition buildDecision ::
  "string \<Rightarrow> string list \<Rightarrow> string list \<Rightarrow> decision_meta \<Rightarrow> triage_decision" where
  "buildDecision decision blockers warnings meta =
     \<lparr>d_decision = decision, d_blockers = blockers, d_warnings = warnings,
      d_fileCount = m_fileCount meta, d_nzbIndex = m_nzbIndex meta,
      d_archiveFindings = m_archiveFindings meta\<rparr>"

text \<open>
  Both exits of \<^verbatim>\<open>analyzeSingleNzb\<close> end with
  \<^verbatim>\<open>const decision = blockers.size === 0 ? 'accept' : 'reject'; return buildDecision(...)\<close>.
\<close>

definition analyzerDecision ::
  "string list \<Rightarrow> string list \<Rightarrow> decision_meta \<Rightarrow> triage_decision" where
  "analyzerDecision blockers warnings meta =
     buildDecision (if blockers = [] then ''accept'' else ''reject'') blockers warnings meta"

text \<open>\<^verbatim>\<open>buildErrorDecision\<close>: the decision recorded when the analysis of one NZB throws.\<close>

definition buildErrorDecision :: "string option \<Rightarrow> string option \<Rightarrow> nat \<Rightarrow> triage_decision" where
  "buildErrorDecision errCode errMessage nzbIndex =
     (let w1 = (case errCode of Some (c # cs) \<Rightarrow> [''code:'' @ (c # cs)] | _ \<Rightarrow> []);
          w2 = (case errMessage of Some (c # cs) \<Rightarrow> [c # cs] | _ \<Rightarrow> []);
          warnings = remdups (w1 @ w2)
      in buildDecision ''reject'' [''analysis-error'']
           (if warnings = [] then [''analysis-failed''] else warnings)
           \<lparr>m_fileCount = Some 0, m_nzbIndex = Some nzbIndex, m_archiveFindings = []\<rparr>)"

definition startsWith :: "string \<Rightarrow> string \<Rightarrow> bool" where
  "startsWith s p = (take (length p) s = p)"

text \<open>\<^verbatim>\<open>String(finding?.status || '').toLowerCase()\<close>\<close>

definition findingLabel :: "finding \<Rightarrow> string" where
  "findingLabel f = toLowerCase (orEmpty (f_status f))"

definition positiveFinding :: "finding list \<Rightarrow> bool" where
  "positiveFinding archiveFindings =
     list_ex (\<lambda>f. findingLabel f = ''rar-stored'' \<or> findingLabel f = ''sevenzip-stored''
                 \<or> findingLabel f = ''segment-ok'') archiveFindings"

definition sevenZipFlag :: "finding list \<Rightarrow> string list \<Rightarrow> bool" where
  "sevenZipFlag archiveFindings warnings =
     (list_ex (\<lambda>f. startsWith (findingLabel f) ''sevenzip'') archiveFindings
      \<or> list_ex (\<lambda>w. startsWith (toLowerCase w) ''sevenzip'') warnings)"

record decision_summary =
  s_status :: string
  s_blockers :: "string list"
  s_warnings :: "string list"
  s_nzbIndex :: "nat option"
  s_fileCount :: "nat option"
  s_archiveFindings :: "finding list"

definition summarizeDecision :: "triage_decision \<Rightarrow> decision_summary" where
  "summarizeDecision decision =
     (let blockers = d_blockers decision;
          warnings = d_warnings decision;
          archiveFindings = d_archiveFindings decision;
          status1 = (if d_decision decision = ''accept'' \<and> blockers = []
                     then (if positiveFinding archiveFindings then ''verified''
                           else ''unverified'')
                     else ''blocked'');
          status2 = (if status1 = ''unverified'' \<and> sevenZipFlag archiveFindings warnings
                     then ''unverified_7z'' else status1)
      in \<lparr>s_status = status2, s_blockers = blockers, s_warnings = warnings,
          s_nzbIndex = d_nzbIndex decision, s_fileCount = d_fileCount decision,
          s_archiveFindings = archiveFindings\<rparr>)"


subsection \<open>The analyzer on local archives\<close>

text \<open>\<^verbatim>\<open>Set.prototype.add\<close> on a set kept in insertion order.\<close>

definition setAdd :: "'a \<Rightarrow> 'a list \<Rightarrow> 'a list" where
  "setAdd x xs = (if x \<in> set xs then xs else xs @ [x])"

text \<open>
  \<^verbatim>\<open>handleArchiveStatus(status, blockers, warnings)\<close>: the returned flag says that a stored
  archive was found; the sets are returned updated.
\<close>

definition handleArchiveStatus ::
  "string \<Rightarrow> string list \<Rightarrow> string list \<Rightarrow> bool \<times> string list \<times> string list" where
  "handleArchiveStatus status blockers warnings =
     (if status = ''rar-stored'' \<or> status = ''sevenzip-stored'' then (True, blockers, warnings)
      else if status \<in> set [''rar-compressed'', ''rar-encrypted'', ''rar-solid'',
                             ''rar5-unsupported'', ''rar-nested-archive'',
                             ''sevenzip-nested-archive'', ''sevenzip-unsupported'']
      then (False, setAdd status blockers, warnings)
      else if status = ''stat-missing'' \<or> status = ''body-missing''
      then (False, setAdd ''missing-articles'' blockers, warnings)
      else if status \<in> set [''archive-not-found'', ''archive-no-segments'',
                             ''rar-insufficient-data'', ''rar-header-not-found'',
                             ''sevenzip-insufficient-data'', ''io-error'', ''stat-error'',
                             ''body-error'', ''decode-error'', ''missing-filename'',
                             ''sevenzip-untested'']
      then (False, blockers, setAdd status warnings)
      else (False, blockers, warnings))"

text \<open>
  The state of \<^verbatim>\<open>analyzeSingleNzb\<close> while it inspects the archive candidates:
  \<^verbatim>\<open>storedArchiveFound\<close>, the two sets and the findings.
\<close>

record analysis =
  a_stored :: bool
  a_blockers :: "string list"
  a_warnings :: "string list"
  a_findings :: "finding list"

text \<open>One round of the loop over the archive candidates, for a candidate whose local
  inspection returned \<open>status\<close>.\<close>

definition localRound :: "analysis \<Rightarrow> string \<Rightarrow> analysis" where
  "localRound st status =
     (case handleArchiveStatus status (a_blockers st) (a_warnings st) of
        (stored, blockers, warnings) \<Rightarrow>
          \<lparr>a_stored = a_stored st \<or> stored, a_blockers = blockers, a_warnings = warnings,
           a_findings = a_findings st @ [\<lparr>f_source = ''local'', f_status = Some status\<rparr>]\<rparr>)"

text \<open>
  \<^verbatim>\<open>analyzeSingleNzb\<close> on an NZB with archive candidates, with archive directories configured
  and no NNTP pool (and no NNTP error): \<open>localStatuses\<close> are the statuses that
  \<^verbatim>\<open>inspectLocalArchive\<close> returns for the candidates, in order.
\<close>

definition analyzeLocalArchives :: "nat \<Rightarrow> nat \<Rightarrow> string list \<Rightarrow> triage_decision" where
  "analyzeLocalArchives fileCount nzbIndex localStatuses =
     (let st1 = foldl localRound
                  \<lparr>a_stored = False, a_blockers = [], a_warnings = [], a_findings = []\<rparr>
                  localStatuses;
          w1 = setAdd ''nntp-disabled'' (a_warnings st1);
          w2 = (if \<not> a_stored st1 \<and> a_blockers st1 = []
                then setAdd ''rar-m0-unverified'' w1 else w1)
      in analyzerDecision (a_blockers st1) w2
           \<lparr>m_fileCount = Some fileCount, m_nzbIndex = Some nzbIndex,
            m_archiveFindings = a_findings st1\<rparr>)"

text \<open>An NZB with a RAR volume and a 7z archive, both found truncated in the archive
  directory.\<close>

definition mixedEvidence :: triage_decision where
  "mixedEvidence = analyzeLocalArchives 2 0 [''rar-insufficient-data'', ''sevenzip-insufficient-data'']"

section \<open>Release parser (services/metadata/releaseParser.js)\<close>

text \<open>\<^verbatim>\<open>s.includes(sub)\<close>\<close>

fun strIncludes :: "string \<Rightarrow> string \<Rightarrow> bool" where
  "strIncludes [] sub = (sub = [])"
| "strIncludes (c # cs) sub = (take (length sub) (c # cs) = sub \<or> strIncludes cs sub)"

text \<open>
  One alternative of a resolution pattern under the \<^verbatim>\<open>i\<close> flag: a literal token (written in
  lower case) with an optional \<^verbatim>\<open>\b\<close> in front and an optional \<^verbatim>\<open>\b\<close> behind.  All tokens
  start and end with a word character, so the leading boundary holds at the start of the
  input or after a non-word character, and the trailing one at the end of the input or
  before a non-word character.
\<close>

record alt =
  a_lead :: bool
  a_token :: string
  a_trail :: bool

definition altAt :: "alt \<Rightarrow> char option \<Rightarrow> string \<Rightarrow> bool" where
  "altAt a prev s =
     ((\<not> a_lead a \<or> (case prev of None \<Rightarrow> True | Some p \<Rightarrow> \<not> isWordChar p)) \<and>
      toLowerCase (take (length (a_token a)) s) = a_token a \<and>
      (\<not> a_trail a \<or>
       (case drop (length (a_token a)) s of [] \<Rightarrow> True | c # _ \<Rightarrow> \<not> isWordChar c)))"

text \<open>\<open>altSearch a prev s\<close>: the alternative matches somewhere in \<open>s\<close>, where \<open>prev\<close> is the
  character in front of \<open>s\<close>.\<close>

fun altSearch :: "alt \<Rightarrow> char option \<Rightarrow> string \<Rightarrow> bool" where
  "altSearch a prev [] = False"
| "altSearch a prev (c # cs) = (altAt a prev (c # cs) \<or> altSearch a (Some c) cs)"

text \<open>\<^verbatim>\<open>regex.test(title)\<close> for a pattern given as the list of its alternatives.\<close>

definition regexTest :: "alt list \<Rightarrow> string \<Rightarrow> bool" where
  "regexTest alts title = list_ex (\<lambda>a. altSearch a None title) alts"

definition word :: "string \<Rightarrow> alt" where
  "word tok = \<lparr>a_lead = True, a_token = tok, a_trail = True\<rparr>"

definition anywhere :: "string \<Rightarrow> alt" where
  "anywhere tok = \<lparr>a_lead = False, a_token = tok, a_trail = False\<rparr>"

definition suffixWord :: "string \<Rightarrow> alt" where
  "suffixWord tok = \<lparr>a_lead = False, a_token = tok, a_trail = True\<rparr>"

definition RESOLUTION_PREFERENCES :: "string list" where
  "RESOLUTION_PREFERENCES =
     [''4320p'', ''2160p'', ''1440p'', ''1080p'', ''720p'', ''576p'', ''540p'', ''480p'',
      ''360p'', ''240p'']"

definition RESOLUTION_NUMERIC_PATTERNS :: "(string \<times> alt list) list" where
  "RESOLUTION_NUMERIC_PATTERNS =
     [(''4320p'', [word ''4320p'']),
      (''2160p'', [word ''2160p'']),
      (''1440p'', [word ''1440p'']),
      (''1080p'', [word ''1080p'', anywhere ''fullhd'', anywhere ''fhd'']),
      (''720p'', [word ''720p'', suffixWord ''hd'']),
      (''576p'', [word ''576p'']),
      (''540p'', [word ''540p'']),
      (''480p'', [word ''480p'', suffixWord ''sd'']),
      (''360p'', [word ''360p'']),
      (''240p'', [word ''240p''])]"

definition RESOLUTION_SYNONYM_PATTERNS :: "(string \<times> alt list) list" where
  "RESOLUTION_SYNONYM_PATTERNS =
     [(''4320p'', [word ''8k'']),
      (''2160p'', [word ''4k'', word ''uhd''])]"

text \<open>\<^verbatim>\<open>QUALITY_SCORE_MAP[resolution] || 0\<close>: the rank of the label, the best one highest.\<close>

fun indexOf :: "string list \<Rightarrow> string \<Rightarrow> nat option" where
  "indexOf [] x = None"
| "indexOf (y # ys) x = (if x = y then Some 0 else map_option Suc (indexOf ys x))"

definition qualityScoreOf :: "string option \<Rightarrow> nat" where
  "qualityScoreOf resolution =
     (case resolution of
        None \<Rightarrow> 0
      | Some l \<Rightarrow> (case indexOf RESOLUTION_PREFERENCES l of
                    None \<Rightarrow> 0
                  | Some i \<Rightarrow> length RESOLUTION_PREFERENCES - i))"

text \<open>The loop \<^verbatim>\<open>for (const entry of patterns) if (entry.regex.test(title)) return entry.label\<close>.\<close>

fun firstMatch :: "(string \<times> alt list) list \<Rightarrow> string \<Rightarrow> string option" where
  "firstMatch [] title = None"
| "firstMatch ((label, alts) # rest) title =
     (if regexTest alts title then Some label else firstMatch rest title)"

definition normalizeResolutionLabel :: "string option \<Rightarrow> string option" where
  "normalizeResolutionLabel label =
     (case label of
        None \<Rightarrow> None
      | Some l \<Rightarrow>
          (let v = toLowerCase l
           in if v = [] then None
              else if strIncludes v ''4320'' \<or> strIncludes v ''8k'' then Some ''4320p''
              else if strIncludes v ''2160'' \<or> strIncludes v ''4k'' \<or> strIncludes v ''uhd''
                then Some ''2160p''
              else if strIncludes v ''1440'' then Some ''1440p''
              else if strIncludes v ''1080'' then Some ''1080p''
              else if strIncludes v ''720'' then Some ''720p''
              else if strIncludes v ''576'' then Some ''576p''
              else if strIncludes v ''540'' then Some ''540p''
              else if strIncludes v ''480'' then Some ''480p''
              else if strIncludes v ''360'' then Some ''360p''
              else if strIncludes v ''240'' then Some ''240p''
              else None))"

text \<open>
  What the external library \<^verbatim>\<open>parse-torrent-title\<close> returns for a title: the fields the
  release parser reads.  The library is not part of the repository; it is a parameter of
  the model.  A failing call is replaced by the empty object.
\<close>

record parsed_title =
  p_resolution :: "string option"
  p_quality :: "string option"
  p_source :: "string option"
  p_codec :: "string option"

definition emptyParsed :: parsed_title where
  "emptyParsed = \<lparr>p_resolution = None, p_quality = None, p_source = None, p_codec = None\<rparr>"

text \<open>A property that is missing or the empty string is falsy.\<close>

definition truthy :: "string option \<Rightarrow> bool" where
  "truthy v = (case v of Some (c # cs) \<Rightarrow> True | _ \<Rightarrow> False)"

text \<open>The result \<^term>\<open>None\<close> is JavaScript's \<^verbatim>\<open>null\<close>.\<close>

definition detectResolution :: "string \<Rightarrow> parsed_title \<Rightarrow> string option" where
  "detectResolution rawTitle parsed =
     (if truthy (p_resolution parsed) \<and> normalizeResolutionLabel (p_resolution parsed) \<noteq> None
      then normalizeResolutionLabel (p_resolution parsed)
      else (case firstMatch RESOLUTION_NUMERIC_PATTERNS rawTitle of
              Some label \<Rightarrow> Some label
            | None \<Rightarrow>
                if truthy (p_quality parsed)
                   \<and> normalizeResolutionLabel (p_quality parsed) \<noteq> None
                then normalizeResolutionLabel (p_quality parsed)
                else firstMatch RESOLUTION_SYNONYM_PATTERNS rawTitle))"

text \<open>
  The fields of \<^verbatim>\<open>parseReleaseMetadata\<close>'s result that depend on the resolution.  (The
  language list and the quality label are computed independently of it.)
\<close>

record release_metadata =
  rm_resolution :: "string option"
  rm_qualityLabel :: "string option"
  rm_qualityScore :: nat

definition parseReleaseMetadata :: "(string \<Rightarrow> parsed_title) \<Rightarrow> string \<Rightarrow> release_metadata" where
  "parseReleaseMetadata parseTorrentTitle title =
     (let parsed = parseTorrentTitle title;
          resolution = detectResolution title parsed
      in \<lparr>rm_resolution = resolution,
          rm_qualityLabel =
            (if truthy (p_quality parsed) then p_quality parsed
             else if truthy (p_source parsed) then p_source parsed
             else if truthy (p_codec parsed) then p_codec parsed
             else None),
          rm_qualityScore = qualityScoreOf resolution\<rparr>)"

text \<open>A parser-supplied field is used when it is present and normalizes to a label.\<close>

definition usableLabel :: "string option \<Rightarrow> bool" where
  "usableLabel v = (truthy v \<and> normalizeResolutionLabel v \<noteq> None)"

text \<open>The possible values of the resolution field: \<^verbatim>\<open>null\<close> or one of the ten labels.\<close>

definition resolutionLabels :: "string option set" where
  "resolutionLabels = insert None (Some ` set RESOLUTION_PREFERENCES)"

text \<open>The parser call that fails (or finds nothing): the empty object.\<close>

definition noParser :: "string \<Rightarrow> parsed_title" where
  "noParser t = emptyParsed"


section \<open>Stream response cache (src/cache/streamCache.js)\<close>

text \<open>
  The two environment settings, as \<^verbatim>\<open>Number(process.env.X)\<close> reads them: \<^term>\<open>None\<close> when
  the value is missing or not a finite number.  Numbers are modelled as integers.
\<close>

record cache_env =
  STREAM_CACHE_TTL_MINUTES :: "int option"
  STREAM_CACHE_MAX_SIZE_MB :: "int option"

definition STREAM_CACHE_TTL_MS :: "cache_env \<Rightarrow> int" where
  "STREAM_CACHE_TTL_MS env =
     (case STREAM_CACHE_TTL_MINUTES env of
        Some raw \<Rightarrow> if raw \<ge> 0 then raw * 60 * 1000 else 24 * 60 * 60 * 1000
      | None \<Rightarrow> 24 * 60 * 60 * 1000)"

definition STREAM_CACHE_MAX_BYTES :: "cache_env \<Rightarrow> int" where
  "STREAM_CACHE_MAX_BYTES env =
     (case STREAM_CACHE_MAX_SIZE_MB env of
        Some raw \<Rightarrow> if raw > 0 then raw * 1024 * 1024 else 200 * 1024 * 1024
      | None \<Rightarrow> 200 * 1024 * 1024)"

definition STREAM_CACHE_MAX_ENTRIES :: int where
  "STREAM_CACHE_MAX_ENTRIES = 1000"

text \<open>
  A cache entry \<^verbatim>\<open>{ payload, meta, expiresAt, size }\<close>; payload and meta together are the
  value \<open>e_value\<close>.  The \<^verbatim>\<open>Map\<close> is the list of its key/entry pairs in insertion order, which
  is the order in which a \<^verbatim>\<open>Map\<close> iterates.
\<close>

record 'v cache_entry =
  e_value :: 'v
  e_expiresAt :: "int option"
  e_size :: int

record 'v stream_cache =
  streamResponseCache :: "(string \<times> 'v cache_entry) list"
  streamCacheBytes :: int

definition emptyCache :: "'v stream_cache" where
  "emptyCache = \<lparr>streamResponseCache = [], streamCacheBytes = 0\<rparr>"

text \<open>\<^verbatim>\<open>entry.expiresAt && entry.expiresAt <= now\<close>\<close>

definition expired :: "int \<Rightarrow> 'v cache_entry \<Rightarrow> bool" where
  "expired now e = (case e_expiresAt e of None \<Rightarrow> False | Some t \<Rightarrow> t \<noteq> 0 \<and> t \<le> now)"

definition sizes :: "(string \<times> 'v cache_entry) list \<Rightarrow> int" where
  "sizes es = sum_list (map (\<lambda>(k, e). e_size e) es)"

text \<open>The loop over \<^verbatim>\<open>entries()\<close> that deletes every expired entry.\<close>

definition removeExpired :: "int \<Rightarrow> 'v stream_cache \<Rightarrow> 'v stream_cache" where
  "removeExpired now s =
     \<lparr>streamResponseCache = filter (\<lambda>(k, e). \<not> expired now e) (streamResponseCache s),
      streamCacheBytes =
        streamCacheBytes s - sizes (filter (\<lambda>(k, e). expired now e) (streamResponseCache s))\<rparr>"

definition overLimit :: "cache_env \<Rightarrow> (string \<times> 'v cache_entry) list \<Rightarrow> int \<Rightarrow> bool" where
  "overLimit env es bytes =
     ((STREAM_CACHE_MAX_BYTES env > 0 \<and> bytes > STREAM_CACHE_MAX_BYTES env)
      \<or> (STREAM_CACHE_MAX_ENTRIES > 0 \<and> int (length es) > STREAM_CACHE_MAX_ENTRIES))"

text \<open>
  The \<^verbatim>\<open>while\<close> loop that enforces the limits.  \<^verbatim>\<open>keys().next().value\<close> is the oldest key;
  the loop breaks when the map is empty (the key is \<^verbatim>\<open>undefined\<close>) or the key is falsy.
\<close>

fun evictLoop ::
  "cache_env \<Rightarrow> (string \<times> 'v cache_entry) list \<Rightarrow> int \<Rightarrow> (string \<times> 'v cache_entry) list \<times> int"
  where
  "evictLoop env [] bytes = ([], bytes)"
| "evictLoop env ((k, e) # rest) bytes =
     (if overLimit env ((k, e) # rest) bytes
      then (if k = [] then ((k, e) # rest, bytes) else evictLoop env rest (bytes - e_size e))
      else ((k, e) # rest, bytes))"

definition cleanupStreamCache :: "cache_env \<Rightarrow> int \<Rightarrow> 'v stream_cache \<Rightarrow> 'v stream_cache" where
  "cleanupStreamCache env now s =
     (if streamResponseCache s = [] then s
      else
        (let s1 = (if STREAM_CACHE_TTL_MS env > 0 then removeExpired now s else s);
             (es, bytes) = evictLoop env (streamResponseCache s1) (streamCacheBytes s1)
         in \<lparr>streamResponseCache = es, streamCacheBytes = bytes\<rparr>))"

definition clearStreamResponseCache :: "'v stream_cache \<Rightarrow> 'v stream_cache" where
  "clearStreamResponseCache s = \<lparr>streamResponseCache = [], streamCacheBytes = 0\<rparr>"

text \<open>\<^verbatim>\<open>Map.prototype.delete\<close>\<close>

definition mapDelete :: "string \<Rightarrow> (string \<times> 'a) list \<Rightarrow> (string \<times> 'a) list" where
  "mapDelete key es = filter (\<lambda>(k, e). k \<noteq> key) es"

text \<open>
  \<open>getStreamCacheEntry env now now' key s\<close>: the looked-up entry (\<^term>\<open>None\<close> is the miss
  \<^verbatim>\<open>null\<close>) and the cache afterwards.  \<open>now\<close> is the clock reading of the cleanup call,
  \<open>now'\<close> the later one of the expiry test.
\<close>

definition getStreamCacheEntry ::
  "cache_env \<Rightarrow> int \<Rightarrow> int \<Rightarrow> string \<Rightarrow> 'v stream_cache
     \<Rightarrow> 'v cache_entry option \<times> 'v stream_cache" where
  "getStreamCacheEntry env now now' cacheKey s =
     (if cacheKey = [] \<or> STREAM_CACHE_MAX_ENTRIES \<le> 0 then (None, s)
      else
        (let s1 = cleanupStreamCache env now s
         in (case map_of (streamResponseCache s1) cacheKey of
               None \<Rightarrow> (None, s1)
             | Some entry \<Rightarrow>
                 if expired now' entry
                 then (None, \<lparr>streamResponseCache = mapDelete cacheKey (streamResponseCache s1),
                              streamCacheBytes = streamCacheBytes s1 - e_size entry\<rparr>)
                 else (Some entry, s1))))"

text \<open>
  \<open>setStreamCacheEntry env now now' key value sz s\<close>: \<open>sz\<close> is the result of
  \<^verbatim>\<open>estimateCacheEntrySize(payload, meta)\<close> (the byte length of the serialized entry, or 0
  when serialization fails), \<open>now\<close> the clock reading that stamps the entry and \<open>now'\<close> the
  later one of the closing cleanup.
\<close>

definition setStreamCacheEntry ::
  "cache_env \<Rightarrow> int \<Rightarrow> int \<Rightarrow> string \<Rightarrow> 'v \<Rightarrow> int \<Rightarrow> 'v stream_cache \<Rightarrow> 'v stream_cache" where
  "setStreamCacheEntry env now now' cacheKey v sz s =
     (if cacheKey = [] \<or> STREAM_CACHE_MAX_ENTRIES \<le> 0 then s
      else if sz \<le> 0 \<or> (STREAM_CACHE_MAX_BYTES env > 0 \<and> sz > STREAM_CACHE_MAX_BYTES env)
      then s
      else
        (let expiresAt = (if STREAM_CACHE_TTL_MS env > 0
                          then Some (now + STREAM_CACHE_TTL_MS env) else None);
             s1 = (case map_of (streamResponseCache s) cacheKey of
                     None \<Rightarrow> s
                   | Some existing \<Rightarrow>
                       \<lparr>streamResponseCache = mapDelete cacheKey (streamResponseCache s),
                        streamCacheBytes = streamCacheBytes s - e_size existing\<rparr>);
             s2 = \<lparr>streamResponseCache =
                     streamResponseCache s1 @
                       [(cacheKey, \<lparr>e_value = v, e_expiresAt = expiresAt, e_size = sz\<rparr>)],
                   streamCacheBytes = streamCacheBytes s1 + sz\<rparr>
         in cleanupStreamCache env now' s2))"

text \<open>The calls a client of the module can make, and a run of them from the empty cache.\<close>

datatype 'v cache_op =
    OpSet int int string 'v int
  | OpGet int int string
  | OpCleanup int
  | OpClear

fun applyOp :: "cache_env \<Rightarrow> 'v stream_cache \<Rightarrow> 'v cache_op \<Rightarrow> 'v stream_cache" where
  "applyOp env s (OpSet now now' k v sz) = setStreamCacheEntry env now now' k v sz s"
| "applyOp env s (OpGet now now' k) = snd (getStreamCacheEntry env now now' k s)"
| "applyOp env s (OpCleanup now) = cleanupStreamCache env now s"
| "applyOp env s OpClear = clearStreamResponseCache s"

definition runCache :: "cache_env \<Rightarrow> 'v cache_op list \<Rightarrow> 'v stream_cache" where
  "runCache env ops = foldl (applyOp env) emptyCache ops"

text \<open>The bookkeeping invariant of the module: keys are unique and non-empty, sizes are
  positive, and the byte counter is the sum of the entry sizes.\<close>

definition cacheInv :: "'v stream_cache \<Rightarrow> bool" where
  "cacheInv s =
     (distinct (map fst (streamResponseCache s))
      \<and> [] \<notin> fst ` set (streamResponseCache s)
      \<and> list_all (\<lambda>(k, e). e_size e > 0) (streamResponseCache s)
      \<and> streamCacheBytes s = sizes (streamResponseCache s))"

definition withinLimits :: "cache_env \<Rightarrow> 'v stream_cache \<Rightarrow> bool" where
  "withinLimits env s =
     (streamCacheBytes s \<le> STREAM_CACHE_MAX_BYTES env
      \<and> int (length (streamResponseCache s)) \<le> STREAM_CACHE_MAX_ENTRIES)"

text \<open>A small configuration (TTL one minute, cap 1 MiB) and a run of two insertions of
  600000 bytes each, used to exercise the cache.\<close>

definition exampleEnv :: cache_env where
  "exampleEnv = \<lparr>STREAM_CACHE_TTL_MINUTES = Some 1, STREAM_CACHE_MAX_SIZE_MB = Some 1\<rparr>"

definition exampleOps :: "nat cache_op list" where
  "exampleOps = [OpSet 0 0 ''a'' 7 600000, OpSet 10 10 ''b'' 8 600000]"

definition exampleEntry :: "nat cache_entry" where
  "exampleEntry = \<lparr>e_value = 8, e_expiresAt = Some 60010, e_size = 600000\<rparr>"


section \<open>Mount-handle cache (NZBDav stream cache)\<close>

text \<open>\<^verbatim>\<open>reloadNzbdavCacheConfig\<close>: the TTL from \<^verbatim>\<open>Number(process.env.NZBDAV_CACHE_TTL_MINUTES)\<close>
  (\<^term>\<open>None\<close> when it is not a finite number).\<close>

definition NZBDAV_CACHE_TTL_MS :: "int option \<Rightarrow> int" where
  "NZBDAV_CACHE_TTL_MS raw =
     (case raw of
        Some r \<Rightarrow> if r \<ge> 0 then r * 60 * 1000 else 24 * 60 * 60 * 1000
      | None \<Rightarrow> 24 * 60 * 60 * 1000)"

text \<open>An error thrown by the builder; \<open>isNzbdavFailure\<close> marks a deterministic downstream
  failure.\<close>

record mount_error =
  isNzbdavFailure :: bool
  errMessage :: string

text \<open>
  A cache entry: \<^verbatim>\<open>{status: 'pending', promise}\<close>, \<^verbatim>\<open>{status: 'ready', data, expiresAt}\<close> or
  \<^verbatim>\<open>{status: 'failed', error, expiresAt}\<close>.  A promise is identified by a number.
\<close>

datatype 'd mount_entry =
    Pending nat
  | Ready 'd "int option"
  | Failed mount_error "int option"

text \<open>
  The module state, with two pieces of bookkeeping that make the calls observable: the log
  of builder invocations (key and the promise created for it) and the next promise number.
\<close>

record 'd mount_cache =
  nzbdavStreamCache :: "string \<rightharpoonup> 'd mount_entry"
  builderCalls :: "(string \<times> nat) list"
  nextPromise :: nat

definition entryExpiresAt :: "'d mount_entry \<Rightarrow> int option" where
  "entryExpiresAt e = (case e of Pending p \<Rightarrow> None | Ready d x \<Rightarrow> x | Failed err x \<Rightarrow> x)"

definition mountExpired :: "int \<Rightarrow> 'd mount_entry \<Rightarrow> bool" where
  "mountExpired now e = (case entryExpiresAt e of None \<Rightarrow> False | Some t \<Rightarrow> t \<noteq> 0 \<and> t \<le> now)"

definition cleanupNzbdavCache ::
  "int \<Rightarrow> int \<Rightarrow> (string \<rightharpoonup> 'd mount_entry) \<Rightarrow> (string \<rightharpoonup> 'd mount_entry)" where
  "cleanupNzbdavCache ttl now cache =
     (if ttl \<le> 0 then cache
      else (\<lambda>k. case cache k of
                   None \<Rightarrow> None
                 | Some e \<Rightarrow> if mountExpired now e then None else Some e))"

text \<open>What a call of \<^verbatim>\<open>getOrCreateNzbdavStream\<close> gives its caller: the cached data, a promise
  to wait for, or the stored error, thrown.\<close>

datatype 'd call_result = ReturnsData 'd | Awaits nat | Throws mount_error

text \<open>
  The synchronous part of \<^verbatim>\<open>getOrCreateNzbdavStream(cacheKey, builder)\<close> at clock reading
  \<open>now\<close>.  When no entry exists the builder is invoked (inside the new promise) and the
  entry becomes pending; the creator then awaits that promise, and later callers that
  find the pending entry are handed the same promise.
\<close>

definition getOrCreateNzbdavStream ::
  "int \<Rightarrow> int \<Rightarrow> string \<Rightarrow> 'd mount_cache \<Rightarrow> 'd call_result \<times> 'd mount_cache" where
  "getOrCreateNzbdavStream ttl now cacheKey s =
     (let cache = cleanupNzbdavCache ttl now (nzbdavStreamCache s)
      in (case cache cacheKey of
            Some (Ready d x) \<Rightarrow> (ReturnsData d, s\<lparr>nzbdavStreamCache := cache\<rparr>)
          | Some (Pending p) \<Rightarrow> (Awaits p, s\<lparr>nzbdavStreamCache := cache\<rparr>)
          | Some (Failed err x) \<Rightarrow> (Throws err, s\<lparr>nzbdavStreamCache := cache\<rparr>)
          | None \<Rightarrow>
              (Awaits (nextPromise s),
               \<lparr>nzbdavStreamCache = cache(cacheKey \<mapsto> Pending (nextPromise s)),
                builderCalls = builderCalls s @ [(cacheKey, nextPromise s)],
                nextPromise = Suc (nextPromise s)\<rparr>)))"

definition expiryStamp :: "int \<Rightarrow> int \<Rightarrow> int option" where
  "expiryStamp ttl now = (if ttl > 0 then Some (now + ttl) else None)"

text \<open>The builder of the promise created for \<open>cacheKey\<close> resolves with \<open>d\<close> at time \<open>now\<close>: the
  continuation inside the promise stores the ready entry.\<close>

definition builderResolved ::
  "int \<Rightarrow> int \<Rightarrow> string \<Rightarrow> 'd \<Rightarrow> 'd mount_cache \<Rightarrow> 'd mount_cache" where
  "builderResolved ttl now cacheKey d s =
     s\<lparr>nzbdavStreamCache := (nzbdavStreamCache s)(cacheKey \<mapsto> Ready d (expiryStamp ttl now))\<rparr>"

text \<open>The builder rejects with \<open>err\<close>: the creator's \<^verbatim>\<open>catch\<close> pins a deterministic failure
  and deletes the entry otherwise; the error is rethrown to everyone awaiting the promise.\<close>

definition builderRejected ::
  "int \<Rightarrow> int \<Rightarrow> string \<Rightarrow> mount_error \<Rightarrow> 'd mount_cache \<Rightarrow> 'd mount_cache" where
  "builderRejected ttl now cacheKey err s =
     (if isNzbdavFailure err
      then s\<lparr>nzbdavStreamCache :=
               (nzbdavStreamCache s)(cacheKey \<mapsto> Failed err (expiryStamp ttl now))\<rparr>
      else s\<lparr>nzbdavStreamCache := (nzbdavStreamCache s)(cacheKey := None)\<rparr>)"

text \<open>Several calls for one key, one after the other at the given clock readings, with no
  builder settling in between (the requests are concurrent).\<close>

fun concurrentCalls ::
  "int \<Rightarrow> int list \<Rightarrow> string \<Rightarrow> 'd mount_cache \<Rightarrow> 'd call_result list \<times> 'd mount_cache" where
  "concurrentCalls ttl [] cacheKey s = ([], s)"
| "concurrentCalls ttl (now # ts) cacheKey s =
     (let (r, s1) = getOrCreateNzbdavStream ttl now cacheKey s;
          (rs, s2) = concurrentCalls ttl ts cacheKey s1
      in (r # rs, s2))"

definition emptyMountCache :: "'d mount_cache" where
  "emptyMountCache = \<lparr>nzbdavStreamCache = Map.empty, builderCalls = [], nextPromise = 0\<rparr>"


section \<open>Ranker: sorting annotated results (src/utils/helpers.js)\<close>

text \<open>
  The fields of an annotated result that the sort reads.  \<open>r_size\<close> is \<^term>\<open>None\<close> when
  \<^verbatim>\<open>size\<close> is not a finite number; \<open>r_language\<close> is the primary language, \<open>r_languages\<close> the
  detected language list.  Numbers are modelled as integers.
\<close>

record annotated_result =
  r_title :: string
  r_size :: "int option"
  r_qualityRank :: int
  r_language :: "string option"
  r_languages :: "string list"

text \<open>The \<^verbatim>\<open>preferredLanguages\<close> argument: an array of strings, a comma-separated string, or
  anything else.\<close>

datatype pref_input = PrefArray "string list" | PrefString string | PrefOther

text \<open>The \<^verbatim>\<open>forEach\<close> of \<^verbatim>\<open>normalizePreferredLanguageList\<close>: trimmed non-empty entries, the
  first one of each lower-cased key.\<close>

fun dedupeByLower :: "string list \<Rightarrow> string list \<Rightarrow> string list" where
  "dedupeByLower seen [] = []"
| "dedupeByLower seen (entry # rest) =
     (let v = trim entry
      in if v = [] then dedupeByLower seen rest
         else if toLowerCase v \<in> set seen then dedupeByLower seen rest
         else v # dedupeByLower (toLowerCase v # seen) rest)"

definition normalizePreferredLanguageList :: "pref_input \<Rightarrow> string list" where
  "normalizePreferredLanguageList preferredLanguages =
     (case preferredLanguages of
        PrefArray xs \<Rightarrow> dedupeByLower [] xs
      | PrefString s \<Rightarrow> if s = [] then [] else dedupeByLower [] (splitOn (CHR '','') s)
      | PrefOther \<Rightarrow> [])"

definition gatherResultLanguages :: "annotated_result \<Rightarrow> string list" where
  "gatherResultLanguages r =
     filter (\<lambda>l. l \<noteq> [])
       (map trim ((case r_language r of Some (c # cs) \<Rightarrow> [c # cs] | _ \<Rightarrow> []) @ r_languages r))"

definition getPreferredLanguageMatches :: "annotated_result \<Rightarrow> pref_input \<Rightarrow> string list" where
  "getPreferredLanguageMatches r preferredLanguages =
     (let preferences = map toLowerCase (normalizePreferredLanguageList preferredLanguages);
          resultLanguages = gatherResultLanguages r
      in if preferences = [] \<or> resultLanguages = [] then []
         else concat (map (\<lambda>pref. case find (\<lambda>l. toLowerCase l = pref) resultLanguages of
                                     Some m \<Rightarrow> [m] | None \<Rightarrow> [])
                          preferences))"

definition resultMatchesPreferredLanguage :: "annotated_result \<Rightarrow> pref_input \<Rightarrow> bool" where
  "resultMatchesPreferredLanguage r preferredLanguages =
     (getPreferredLanguageMatches r preferredLanguages \<noteq> [])"

definition finiteSize :: "annotated_result \<Rightarrow> int" where
  "finiteSize r = (case r_size r of Some s \<Rightarrow> s | None \<Rightarrow> 0)"

definition compareQualityThenSize :: "annotated_result \<Rightarrow> annotated_result \<Rightarrow> int" where
  "compareQualityThenSize a b =
     (if r_qualityRank a \<noteq> r_qualityRank b then r_qualityRank b - r_qualityRank a
      else finiteSize b - finiteSize a)"

text \<open>
  \<^verbatim>\<open>Array.prototype.sort(compare)\<close>.  The sort is stable and the comparator is consistent (it
  compares by a key), so the result is the stable sorted arrangement of the input, which
  insertion from the right computes.
\<close>

fun insertBy :: "('a \<Rightarrow> 'a \<Rightarrow> int) \<Rightarrow> 'a \<Rightarrow> 'a list \<Rightarrow> 'a list" where
  "insertBy cmp x [] = [x]"
| "insertBy cmp x (y # ys) = (if cmp x y \<le> 0 then x # y # ys else y # insertBy cmp x ys)"

definition jsSort :: "('a \<Rightarrow> 'a \<Rightarrow> int) \<Rightarrow> 'a list \<Rightarrow> 'a list" where
  "jsSort cmp xs = foldr (insertBy cmp) xs []"

definition sortAnnotatedResults ::
  "annotated_result list \<Rightarrow> string \<Rightarrow> pref_input \<Rightarrow> annotated_result list" where
  "sortAnnotatedResults results sortMode preferredLanguages =
     (if results = [] then results
      else
        (let normalizedPreferences = normalizePreferredLanguageList preferredLanguages
         in if sortMode = ''language_quality_size'' \<and> normalizedPreferences \<noteq> []
            then
              (let preferred = filter (\<lambda>r. resultMatchesPreferredLanguage r
                                            (PrefArray normalizedPreferences)) results;
                   others = filter (\<lambda>r. \<not> resultMatchesPreferredLanguage r
                                            (PrefArray normalizedPreferences)) results
               in jsSort compareQualityThenSize preferred @ jsSort compareQualityThenSize others)
            else jsSort compareQualityThenSize results))"

text \<open>Quality score descending, then size descending.\<close>

definition qualityThenSize :: "annotated_result \<Rightarrow> annotated_result \<Rightarrow> bool" where
  "qualityThenSize a b =
     (r_qualityRank a > r_qualityRank b
      \<or> (r_qualityRank a = r_qualityRank b \<and> finiteSize a \<ge> finiteSize b))"

text \<open>The detected languages of a release and the preferred languages, compared the way
  the code compares them: trimmed and lower-cased.\<close>

definition languageKeys :: "annotated_result \<Rightarrow> string set" where
  "languageKeys r = toLowerCase ` set (gatherResultLanguages r)"

definition preferenceKeys :: "pref_input \<Rightarrow> string set" where
  "preferenceKeys p = toLowerCase ` set (normalizePreferredLanguageList p)"

text \<open>Three releases for exercising the sort.\<close>

definition hindi2160 :: annotated_result where
  "hindi2160 = \<lparr>r_title = ''Movie.2023.2160p.Hindi.WEB'', r_size = Some 10000000000,
                r_qualityRank = 9, r_language = Some ''Hindi'', r_languages = [''Hindi'']\<rparr>"

definition tamil1080 :: annotated_result where
  "tamil1080 = \<lparr>r_title = ''Movie.2023.1080p.Tamil.WEB'', r_size = Some 4000000000,
                r_qualityRank = 7, r_language = Some ''Tamil'', r_languages = [''Tamil'']\<rparr>"

definition english2160 :: annotated_result where
  "english2160 = \<lparr>r_title = ''Movie.2023.2160p.English.WEB'', r_size = Some 12000000000,
                  r_qualityRank = 9, r_language = Some ''English'', r_languages = [''English'']\<rparr>"


section \<open>Title deduplication (server.js, utils/publishInfo.js, utils/parsers.js)\<close>

subsection \<open>Normalized titles\<close>

text \<open>\<^verbatim>\<open>s.replace(/[class]+/g, ' ')\<close>: every maximal run of characters of the class becomes one
  space.  The flag says that the previous character belonged to a run.\<close>

fun replaceRuns :: "(char \<Rightarrow> bool) \<Rightarrow> bool \<Rightarrow> string \<Rightarrow> string" where
  "replaceRuns P inRun [] = []"
| "replaceRuns P inRun (c # cs) =
     (if P c then (if inRun then replaceRuns P True cs else CHR '' '' # replaceRuns P True cs)
      else c # replaceRuns P False cs)"

text \<open>\<^verbatim>\<open>s.replace(/\s{2,}/g, ' ')\<close>: a run of two or more white-space characters becomes one
  space, a single white-space character stays.  \<open>run\<close> is the pending run.\<close>

definition flushRun :: "string \<Rightarrow> string" where
  "flushRun run = (case run of [] \<Rightarrow> [] | [w] \<Rightarrow> [w] | _ \<Rightarrow> '' '')"

fun collapseSpaces :: "string \<Rightarrow> string \<Rightarrow> string" where
  "collapseSpaces run [] = flushRun run"
| "collapseSpaces run (c # cs) =
     (if isJsSpace c then collapseSpaces (c # run) cs
      else flushRun run @ c # collapseSpaces [] cs)"

text \<open>\<^verbatim>\<open>raw.replace(/\.(nzb|zip)$/i, '')\<close>\<close>

definition stripNzbSuffix :: "string \<Rightarrow> string" where
  "stripNzbSuffix raw =
     (let n = length raw
      in if n \<ge> 4 \<and> (toLowerCase (drop (n - 4) raw) = ''.nzb''
                       \<or> toLowerCase (drop (n - 4) raw) = ''.zip'')
         then take (n - 4) raw else raw)"

definition isAlnum :: "char \<Rightarrow> bool" where
  "isAlnum c = (c \<in> set ''abcdefghijklmnopqrstuvwxyzABCDEFGHIJKLMNOPQRSTUVWXYZ0123456789'')"

definition normalizeReleaseTitle :: "string option \<Rightarrow> string" where
  "normalizeReleaseTitle title =
     (case title of
        None \<Rightarrow> []
      | Some t \<Rightarrow>
          (let raw = trim t
           in if raw = [] then []
              else
                (let w1 = stripNzbSuffix raw;
                     w2 = replaceRuns (\<lambda>c. c \<in> set ''._-'') False w1;
                     w3 = replaceRuns (\<lambda>c. c \<in> set [CHR 0x27, CHR 0x22, CHR 0x60]) False w2;
                     w4 = map (\<lambda>c. if c \<in> set ''()[]{}'' then CHR '' '' else c) w3;
                     w5 = replaceRuns (\<lambda>c. \<not> isAlnum c \<and> \<not> isJsSpace c) False w4;
                     w6 = collapseSpaces [] w5
                 in toLowerCase (trim w6))))"

subsection \<open>Publish instants\<close>

definition MS_PER_DAY :: int where
  "MS_PER_DAY = 24 * 60 * 60 * 1000"

definition DEDUPE_MAX_PUBLISH_DIFF_DAYS :: int where
  "DEDUPE_MAX_PUBLISH_DIFF_DAYS = 14"

text \<open>A field of a raw result as far as the publish date is concerned: missing, a finite
  number (modelled as an integer) or a string.\<close>

datatype jsval = JUndefined | JNum int | JStr string

text \<open>
  What the deduplication reads from its surroundings: the set \<^verbatim>\<open>PAID_INDEXER_TOKENS\<close> and the
  two engine built-ins that \<^verbatim>\<open>normalizePublishDate\<close> applies to strings, \<^verbatim>\<open>Number(s)\<close>
  (\<^term>\<open>None\<close> when the result is not finite) and \<^verbatim>\<open>Date.parse(s)\<close> (\<^term>\<open>None\<close> for \<^verbatim>\<open>NaN\<close>).
\<close>

record dedupe_env =
  PAID_INDEXER_TOKENS :: "string list"
  jsNumber :: "string \<Rightarrow> int option"
  jsDateParse :: "string \<Rightarrow> int option"

definition secondsOrMs :: "int \<Rightarrow> int" where
  "secondsOrMs v = (if v \<ge> 1000000000000 then v else v * 1000)"

definition normalizePublishDate :: "dedupe_env \<Rightarrow> jsval \<Rightarrow> int option" where
  "normalizePublishDate env v =
     (case v of
        JUndefined \<Rightarrow> None
      | JNum n \<Rightarrow> Some (secondsOrMs n)
      | JStr s \<Rightarrow>
          (let trimmed = trim s
           in if trimmed = [] then None
              else (case jsNumber env trimmed of
                      Some numeric \<Rightarrow> Some (secondsOrMs numeric)
                    | None \<Rightarrow> jsDateParse env trimmed)))"

text \<open>
  A release as the deduplication sees it.  \<open>rel_publishDateMs\<close> is the field
  \<^verbatim>\<open>publishDateMs\<close>; \<open>rel_publishOthers\<close> are the other publish-date fields in the order in
  which \<^verbatim>\<open>getPublishMetadataFromResult\<close> tries them (\<^verbatim>\<open>publishDate\<close>, \<^verbatim>\<open>publish_date\<close>,
  \<^verbatim>\<open>publishdate\<close>, \<^verbatim>\<open>published\<close>, \<^verbatim>\<open>publishDateUTC\<close>, \<^verbatim>\<open>pubDate\<close>, \<^verbatim>\<open>pubdate\<close>, \<^verbatim>\<open>usenetdate\<close>,
  \<^verbatim>\<open>usenet-date\<close>).
\<close>

record release =
  rel_title :: "string option"
  rel_downloadUrl :: string
  rel_indexerId :: "string option"
  rel_indexer :: "string option"
  rel_size :: int
  rel_publishDateMs :: jsval
  rel_publishOthers :: "jsval list"

text \<open>The loop \<^verbatim>\<open>for (const candidate of publishCandidates) { publishDateMs =
  normalizePublishDate(candidate); if (publishDateMs) break; }\<close> followed by
  \<^verbatim>\<open>publishDateMs || null\<close>: the first candidate that normalizes to a non-zero instant.\<close>

fun firstPublish :: "dedupe_env \<Rightarrow> jsval list \<Rightarrow> int option" where
  "firstPublish env [] = None"
| "firstPublish env (c # cs) =
     (case normalizePublishDate env c of
        Some ms \<Rightarrow> if ms \<noteq> 0 then Some ms else firstPublish env cs
      | None \<Rightarrow> firstPublish env cs)"

text \<open>The \<^verbatim>\<open>publishDateMs\<close> field of \<^verbatim>\<open>getPublishMetadataFromResult(result)\<close>.  (The ISO string
  and the age in days that the function also returns are not read by the deduplication.)\<close>

definition publishOf :: "dedupe_env \<Rightarrow> release \<Rightarrow> int option" where
  "publishOf env r = firstPublish env (rel_publishDateMs r # rel_publishOthers r)"

definition jsvalFalsy :: "jsval \<Rightarrow> bool" where
  "jsvalFalsy v = (case v of JUndefined \<Rightarrow> True | JNum n \<Rightarrow> n = 0 | JStr s \<Rightarrow> s = [])"

text \<open>\<^verbatim>\<open>if (publishMeta.publishDateMs && !result.publishDateMs) result.publishDateMs =
  publishMeta.publishDateMs\<close>: the write that the pass makes to every release it visits.\<close>

definition stampPublish :: "dedupe_env \<Rightarrow> release \<Rightarrow> release" where
  "stampPublish env r =
     (case publishOf env r of
        Some ms \<Rightarrow> if jsvalFalsy (rel_publishDateMs r) then r\<lparr>rel_publishDateMs := JNum ms\<rparr> else r
      | None \<Rightarrow> r)"

text \<open>\<^verbatim>\<open>areReleasesWithinDays(referenceMs, candidateMs, days)\<close>; \<^term>\<open>None\<close> is \<^verbatim>\<open>null\<close>.\<close>

definition areReleasesWithinDays :: "int option \<Rightarrow> int option \<Rightarrow> int \<Rightarrow> bool" where
  "areReleasesWithinDays referenceMs candidateMs days =
     (if days \<le> 0 then True
      else (case (referenceMs, candidateMs) of
              (Some r, Some c) \<Rightarrow> \<bar>r - c\<bar> \<le> days * MS_PER_DAY
            | _ \<Rightarrow> True))"

subsection \<open>Paid indexers\<close>

definition normalizeIndexerToken :: "string option \<Rightarrow> string option" where
  "normalizeIndexerToken v =
     (case v of
        None \<Rightarrow> None
      | Some s \<Rightarrow> (let token = toLowerCase (trim s) in if token = [] then None else Some token))"

definition isResultFromPaidIndexer :: "dedupe_env \<Rightarrow> release \<Rightarrow> bool" where
  "isResultFromPaidIndexer env r =
     (if PAID_INDEXER_TOKENS env = [] then False
      else list_ex (\<lambda>t. case t of None \<Rightarrow> False | Some token \<Rightarrow> token \<in> set (PAID_INDEXER_TOKENS env))
             [normalizeIndexerToken (rel_indexerId r), normalizeIndexerToken (rel_indexer r)])"

subsection \<open>The pass\<close>

record bucket_entry =
  be_publishDateMs :: "int option"
  be_isPaid :: bool
  be_result :: release
  be_listIndex :: nat

text \<open>The state of the loop: the map \<^verbatim>\<open>buckets\<close> (a title without a bucket has the empty
  list) and the array \<^verbatim>\<open>deduped\<close>.\<close>

record dedupe_state =
  ds_buckets :: "string \<Rightarrow> bucket_entry list"
  ds_deduped :: "release list"

text \<open>The index of the first entry of the bucket that the candidate matches.\<close>

fun findMatch :: "int option \<Rightarrow> bucket_entry list \<Rightarrow> nat option" where
  "findMatch candidatePublish [] = None"
| "findMatch candidatePublish (e # es) =
     (if areReleasesWithinDays (be_publishDateMs e) candidatePublish DEDUPE_MAX_PUBLISH_DIFF_DAYS
      then Some 0
      else map_option Suc (findMatch candidatePublish es))"

definition replaceEntry ::
  "dedupe_state \<Rightarrow> string \<Rightarrow> nat \<Rightarrow> bucket_entry \<Rightarrow> release \<Rightarrow> dedupe_state" where
  "replaceEntry s t i e result =
     \<lparr>ds_buckets = (ds_buckets s)(t := (ds_buckets s t)[i := e]),
      ds_deduped = (ds_deduped s)[be_listIndex e := result]\<rparr>"

text \<open>One iteration of the \<^verbatim>\<open>for\<close> loop of \<^verbatim>\<open>dedupeResultsByTitle\<close>.\<close>

definition dedupeStep :: "dedupe_env \<Rightarrow> dedupe_state \<Rightarrow> release \<Rightarrow> dedupe_state" where
  "dedupeStep env s result0 =
     (let normalizedTitle = normalizeReleaseTitle (rel_title result0);
          candidatePublish = publishOf env result0;
          result = stampPublish env result0
      in if normalizedTitle = [] then s\<lparr>ds_deduped := ds_deduped s @ [result]\<rparr>
         else
           (let bucket = ds_buckets s normalizedTitle;
                candidateIsPaid = isResultFromPaidIndexer env result
            in (case findMatch candidatePublish bucket of
                  None \<Rightarrow>
                    \<lparr>ds_buckets = (ds_buckets s)(normalizedTitle :=
                        bucket @ [\<lparr>be_publishDateMs = candidatePublish, be_isPaid = candidateIsPaid,
                                   be_result = result, be_listIndex = length (ds_deduped s)\<rparr>]),
                     ds_deduped = ds_deduped s @ [result]\<rparr>
                | Some i \<Rightarrow>
                    (let matchedEntry = bucket ! i
                     in if candidateIsPaid \<and> \<not> be_isPaid matchedEntry
                        then replaceEntry s normalizedTitle i
                               (matchedEntry\<lparr>be_isPaid := True,
                                              be_publishDateMs := candidatePublish,
                                              be_result := result\<rparr>) result
                        else if candidateIsPaid = be_isPaid matchedEntry
                        then (case candidatePublish of
                                None \<Rightarrow> s
                              | Some c \<Rightarrow>
                                  (case be_publishDateMs matchedEntry of
                                     None \<Rightarrow>
                                       replaceEntry s normalizedTitle i
                                         (matchedEntry\<lparr>be_publishDateMs := candidatePublish,
                                                        be_result := result\<rparr>) result
                                   | Some existing \<Rightarrow>
                                       if c > existing
                                       then replaceEntry s normalizedTitle i
                                              (matchedEntry\<lparr>be_publishDateMs := candidatePublish,
                                                             be_result := result\<rparr>) result
                                       else s))
                        else s))))"

definition initialDedupe :: dedupe_state where
  "initialDedupe = \<lparr>ds_buckets = (\<lambda>t. []), ds_deduped = []\<rparr>"

definition dedupeResultsByTitle :: "dedupe_env \<Rightarrow> release list \<Rightarrow> release list" where
  "dedupeResultsByTitle env results = ds_deduped (foldl (dedupeStep env) initialDedupe results)"

subsection \<open>Vocabulary for the results\<close>

definition titleOf :: "release \<Rightarrow> string" where
  "titleOf r = normalizeReleaseTitle (rel_title r)"

text \<open>Two known publish instants more than 14 days apart.\<close>

definition farApart :: "dedupe_env \<Rightarrow> release \<Rightarrow> release \<Rightarrow> bool" where
  "farApart env a b =
     (case (publishOf env a, publishOf env b) of
        (Some x, Some y) \<Rightarrow> \<bar>x - y\<bar> > DEDUPE_MAX_PUBLISH_DIFF_DAYS * MS_PER_DAY
      | _ \<Rightarrow> False)"

text \<open>Two known publish instants at most 14 days apart.\<close>

definition withinWindow :: "dedupe_env \<Rightarrow> release \<Rightarrow> release \<Rightarrow> bool" where
  "withinWindow env a b =
     (case (publishOf env a, publishOf env b) of
        (Some x, Some y) \<Rightarrow> \<bar>x - y\<bar> \<le> DEDUPE_MAX_PUBLISH_DIFF_DAYS * MS_PER_DAY
      | _ \<Rightarrow> False)"

text \<open>No two releases of the list that share a non-empty normalized title are closer than
  the window (or of unknown date).\<close>

fun allFarApart :: "dedupe_env \<Rightarrow> release list \<Rightarrow> bool" where
  "allFarApart env [] = True"
| "allFarApart env (r # rs) =
     (list_all (\<lambda>x. titleOf x = titleOf r \<and> titleOf r \<noteq> [] \<longrightarrow> farApart env r x) rs
      \<and> allFarApart env rs)"

text \<open>Which of two releases compared by the pass is kept, \<open>a\<close> being the earlier one in the
  list: a paid candidate replaces an unpaid one; with equal paid status the candidate wins
  when its instant is known and the earlier one's is unknown or older.\<close>

definition pairWinner :: "dedupe_env \<Rightarrow> release \<Rightarrow> release \<Rightarrow> release" where
  "pairWinner env a b =
     (if isResultFromPaidIndexer env b \<and> \<not> isResultFromPaidIndexer env a then b
      else if isResultFromPaidIndexer env b = isResultFromPaidIndexer env a
      then (case publishOf env b of
              None \<Rightarrow> a
            | Some y \<Rightarrow> (case publishOf env a of None \<Rightarrow> b | Some x \<Rightarrow> if y > x then b else a))
      else a)"

text \<open>Fixtures: no paid-indexer set and one with the token \<open>paidindexer\<close>; string dates are
  not used.\<close>

definition freeEnv :: dedupe_env where
  "freeEnv = \<lparr>PAID_INDEXER_TOKENS = [], jsNumber = (\<lambda>s. None), jsDateParse = (\<lambda>s. None)\<rparr>"

definition paidEnv :: dedupe_env where
  "paidEnv = \<lparr>PAID_INDEXER_TOKENS = [''paidindexer''], jsNumber = (\<lambda>s. None),
              jsDateParse = (\<lambda>s. None)\<rparr>"

definition mkRelease :: "string \<Rightarrow> string \<Rightarrow> string \<Rightarrow> jsval \<Rightarrow> release" where
  "mkRelease title url indexer published =
     \<lparr>rel_title = Some title, rel_downloadUrl = url, rel_indexerId = None,
      rel_indexer = Some indexer, rel_size = 5000000000, rel_publishDateMs = published,
      rel_publishOthers = []\<rparr>"

subsection \<open>Loop invariants\<close>

text \<open>The state after a prefix in which nothing has been collapsed: every release is in
  \<^verbatim>\<open>deduped\<close>, and the bucket of a title lists the instants of its releases.\<close>

definition untouched :: "dedupe_env \<Rightarrow> dedupe_state \<Rightarrow> release list \<Rightarrow> bool" where
  "untouched env s done =
     (ds_deduped s = map (stampPublish env) done
      \<and> (\<forall>t. t \<noteq> [] \<longrightarrow>
            map be_publishDateMs (ds_buckets s t)
              = map (publishOf env) (filter (\<lambda>r. titleOf r = t) done)))"

text \<open>A title has a subgroup exactly when a release of that title has been visited.\<close>

definition subgroupsOpened :: "dedupe_state \<Rightarrow> release list \<Rightarrow> bool" where
  "subgroupsOpened s done =
     (\<forall>t. t \<noteq> [] \<longrightarrow> (ds_buckets s t \<noteq> []) = (\<exists>x \<in> set done. titleOf x = t))"

text \<open>Fixtures: three free releases of one title published at day 0, day 10 and day 20, one
  at day 100, and an undated release from the paid indexer.\<close>

definition relDay0 :: release where
  "relDay0 = mkRelease ''Movie.2023.1080p.WEB'' ''http://indexer/1'' ''free''
               (JNum 1700000000000)"

definition relDay10 :: release where
  "relDay10 = mkRelease ''movie-2023-1080p-web.nzb'' ''http://indexer/2'' ''free''
                (JNum 1700864000000)"

definition relDay20 :: release where
  "relDay20 = mkRelease ''Movie 2023 1080p WEB'' ''http://indexer/3'' ''free''
                (JNum 1701728000000)"

definition relDay100 :: release where
  "relDay100 = mkRelease ''Movie 2023 1080p WEB'' ''http://indexer/4'' ''free''
                 (JNum 1708640000000)"

definition relUndatedPaid :: release where
  "relUndatedPaid = mkRelease ''Movie (2023) 1080p WEB'' ''http://indexer/5'' ''PaidIndexer''
                      JUndefined"

subsection \<open>The pass by positions\<close>

text \<open>
  To say which release removes which, the pass is followed by positions in the input list.
  \<open>replaces env a b\<close>: the candidate \<open>b\<close> takes the place of the representative \<open>a\<close> that
  it matches (otherwise \<open>b\<close> is dropped).  \<open>withinOf\<close> is the test of
  \<^verbatim>\<open>areReleasesWithinDays\<close> on the instants of two releases.
\<close>

definition replaces :: "dedupe_env \<Rightarrow> release \<Rightarrow> release \<Rightarrow> bool" where
  "replaces env a b =
     (if isResultFromPaidIndexer env b \<and> \<not> isResultFromPaidIndexer env a then True
      else if isResultFromPaidIndexer env b = isResultFromPaidIndexer env a
      then (case publishOf env b of
              None \<Rightarrow> False
            | Some y \<Rightarrow> (case publishOf env a of None \<Rightarrow> True | Some x \<Rightarrow> y > x))
      else False)"

definition withinOf :: "dedupe_env \<Rightarrow> release \<Rightarrow> release \<Rightarrow> bool" where
  "withinOf env a b =
     areReleasesWithinDays (publishOf env a) (publishOf env b) DEDUPE_MAX_PUBLISH_DIFF_DAYS"

text \<open>
  \<open>slots\<close> lists, for every index of \<^verbatim>\<open>deduped\<close>, the input position of the release that
  stands there.  The candidate at position \<open>k\<close> matches the first slot that holds a release
  of its title within the window.  The log records each removal as the pair of the
  position removed and the position it was compared with.
\<close>

definition slotMatch :: "dedupe_env \<Rightarrow> release list \<Rightarrow> nat list \<Rightarrow> release \<Rightarrow> nat option" where
  "slotMatch env xs slots c =
     find (\<lambda>j. titleOf (xs ! (slots ! j)) = titleOf c \<and> withinOf env (xs ! (slots ! j)) c)
       [0..<length slots]"

definition slotStep ::
  "dedupe_env \<Rightarrow> release list \<Rightarrow> nat list \<times> (nat \<times> nat) list \<Rightarrow> nat
     \<Rightarrow> nat list \<times> (nat \<times> nat) list" where
  "slotStep env xs st k =
     (case st of
        (slots, removed) \<Rightarrow>
          if titleOf (xs ! k) = [] then (slots @ [k], removed)
          else
            (case slotMatch env xs slots (xs ! k) of
               None \<Rightarrow> (slots @ [k], removed)
             | Some j \<Rightarrow>
                 if replaces env (xs ! (slots ! j)) (xs ! k)
                 then (slots[j := k], removed @ [(slots ! j, k)])
                 else (slots, removed @ [(k, slots ! j)])))"

definition slotPass :: "dedupe_env \<Rightarrow> release list \<Rightarrow> nat \<Rightarrow> nat list \<times> (nat \<times> nat) list" where
  "slotPass env xs n = foldl (slotStep env xs) ([], []) [0..<n]"

text \<open>The positions that survive, in output order, and the removals.\<close>

definition survivors :: "dedupe_env \<Rightarrow> release list \<Rightarrow> nat list" where
  "survivors env xs = fst (slotPass env xs (length xs))"

definition removals :: "dedupe_env \<Rightarrow> release list \<Rightarrow> (nat \<times> nat) list" where
  "removals env xs = snd (slotPass env xs (length xs))"

text \<open>The entry of the slot \<open>j\<close>, and what relates the state of the loop to the slots.\<close>

definition entryOf :: "dedupe_env \<Rightarrow> release list \<Rightarrow> nat list \<Rightarrow> nat \<Rightarrow> bucket_entry" where
  "entryOf env xs slots j =
     \<lparr>be_publishDateMs = publishOf env (xs ! (slots ! j)),
      be_isPaid = isResultFromPaidIndexer env (xs ! (slots ! j)),
      be_result = stampPublish env (xs ! (slots ! j)),
      be_listIndex = j\<rparr>"

definition titleSlots :: "release list \<Rightarrow> nat list \<Rightarrow> string \<Rightarrow> nat list" where
  "titleSlots xs slots t = filter (\<lambda>j. titleOf (xs ! (slots ! j)) = t) [0..<length slots]"

definition represents :: "dedupe_env \<Rightarrow> release list \<Rightarrow> dedupe_state \<Rightarrow> nat list \<Rightarrow> bool" where
  "represents env xs s slots =
     (ds_deduped s = map (\<lambda>p. stampPublish env (xs ! p)) slots
      \<and> (\<forall>t. t \<noteq> [] \<longrightarrow> ds_buckets s t = map (entryOf env xs slots) (titleSlots xs slots t)))"

text \<open>The positions of the releases of a title, and the one that is left when each is
  compared with the winner so far.\<close>

definition titlePositions :: "release list \<Rightarrow> string \<Rightarrow> nat \<Rightarrow> nat list" where
  "titlePositions xs t n = filter (\<lambda>p. titleOf (xs ! p) = t) [0..<n]"

definition pick :: "dedupe_env \<Rightarrow> release list \<Rightarrow> nat \<Rightarrow> nat \<Rightarrow> nat" where
  "pick env xs b p = (if replaces env (xs ! b) (xs ! p) then p else b)"

definition groupWinner :: "dedupe_env \<Rightarrow> release list \<Rightarrow> nat list \<Rightarrow> nat" where
  "groupWinner env xs ps = foldl (pick env xs) (hd ps) (tl ps)"

text \<open>The releases of a list that carry a title.\<close>

definition releasesOfTitle :: "string \<Rightarrow> release list \<Rightarrow> release list" where
  "releasesOfTitle t rs = filter (\<lambda>r. titleOf r = t) rs"

text \<open>A release of another title, and lists for exercising the pass.\<close>

definition relOther :: release where
  "relOther = mkRelease ''Other.Show.S01E01.720p'' ''http://indexer/7'' ''free''
                (JNum 1700432000000)"

definition listZigzag :: "release list" where
  "listZigzag = [relDay0, relDay20, relDay10]"

definition listIsolated :: "release list" where
  "listIsolated = [relDay0, relDay10, relDay100]"

definition listMixed :: "release list" where
  "listMixed = [relDay0, relOther, relDay10]"


section \<open>Triage runner: worker pool and time budget (triage runner, \<^verbatim>\<open>triageAndRank\<close>)\<close>

subsection \<open>Decisions of the runner\<close>









subsection \<open>A JavaScript \<^verbatim>\<open>Map\<close> in insertion order\<close>

fun mapSet :: "'k \<Rightarrow> 'v \<Rightarrow> ('k \<times> 'v) list \<Rightarrow> ('k \<times> 'v) list" where
  "mapSet k v [] = [(k, v)]"
| "mapSet k v (p # ps) = (if fst p = k then (k, v) # ps else p # mapSet k v ps)"

definition mapHas :: "'k \<Rightarrow> ('k \<times> 'v) list \<Rightarrow> bool" where
  "mapHas k m = (map_of m k \<noteq> None)"

subsection \<open>The pool\<close>
























subsection \<open>Notions for the time budget\<close>





















section \<open>Evaluation rules for the string primitives\<close>

lemmas js_string_defs =
  toLowerCase_def toLowerChar_def upperChars_def lowerChars_def isWordChar_def isDigit_def
  isJsSpace_def trim_def jsOr_def orEmpty_def


section \<open>Results: the authentication gate\<close>

lemmas auth_defs =
  ensureSharedSecret_def extractTokenFromRequest_def pathMatch_def keywordAt_def
  routeKeywords_def unauthorizedMessage_def

text \<open>
  Claim C9 as stated fails: with a secret configured, a request without any token is passed
  on to the downstream handlers when its method is OPTIONS.
\<close>

theorem ensureSharedSecret_options_counterexample:
  "extractTokenFromRequest
     \<lparr>req_method = ''OPTIONS'', req_path = Some ''/stream/movie/tt0111161.json'',
      req_params_token = None, hdr_authorization = None, hdr_x_addon_token = None\<rparr>
     \<noteq> ''s3cret''
   \<and> ensureSharedSecret (Some ''s3cret'')
     \<lparr>req_method = ''OPTIONS'', req_path = Some ''/stream/movie/tt0111161.json'',
      req_params_token = None, hdr_authorization = None, hdr_x_addon_token = None\<rparr>
     = Next"
  by (simp add: auth_defs js_string_defs)

text \<open>
  Claim C9, amended: when a shared secret is configured, every request whose method is not
  OPTIONS and whose extracted token (path prefix, else route parameter, else authorization
  headers) is not the configured secret is answered with 401, and \<^verbatim>\<open>next()\<close> is not called.
\<close>

theorem ensureSharedSecret_rejects:
  assumes "trim secret \<noteq> []"
    and "req_method req \<noteq> ''OPTIONS''"
    and "extractTokenFromRequest req \<noteq> trim secret"
  shows "ensureSharedSecret (Some secret) req = Respond 401 unauthorizedMessage
         \<and> ensureSharedSecret (Some secret) req \<noteq> Next"
  using assms by (simp add: ensureSharedSecret_def orEmpty_def Let_def)

theorem ensureSharedSecret_rejects_witness:
  "trim '' s3cret '' \<noteq> []
   \<and> req_method \<lparr>req_method = ''GET'', req_path = Some ''/wrong/stream/movie/tt0111161.json'',
        req_params_token = None, hdr_authorization = Some ''Token s3cret'',
        hdr_x_addon_token = None\<rparr> \<noteq> ''OPTIONS''
   \<and> extractTokenFromRequest
        \<lparr>req_method = ''GET'', req_path = Some ''/wrong/stream/movie/tt0111161.json'',
         req_params_token = None, hdr_authorization = Some ''Token s3cret'',
         hdr_x_addon_token = None\<rparr> = ''wrong''
   \<and> ensureSharedSecret (Some '' s3cret '')
        \<lparr>req_method = ''GET'', req_path = Some ''/wrong/stream/movie/tt0111161.json'',
         req_params_token = None, hdr_authorization = Some ''Token s3cret'',
         hdr_x_addon_token = None\<rparr> = Respond 401 unauthorizedMessage"
proof -
  let ?r = "\<lparr>req_method = ''GET'', req_path = Some ''/wrong/stream/movie/tt0111161.json'',
        req_params_token = None, hdr_authorization = Some ''Token s3cret'',
        hdr_x_addon_token = None\<rparr>"
  have t: "trim '' s3cret '' = ''s3cret''" by (simp add: js_string_defs)
  have e: "extractTokenFromRequest ?r = ''wrong''"
    by (simp add: auth_defs js_string_defs)
  have m: "req_method ?r \<noteq> ''OPTIONS''" by simp
  from ensureSharedSecret_rejects [of "'' s3cret ''" ?r] t e m show ?thesis by simp
qed


section \<open>Ranged responses: parsing lemmas\<close>

lemma splitOn_notin: "d \<notin> set s \<Longrightarrow> splitOn d s = [s]"
  by (induction s) auto

lemma splitOn_append: "d \<notin> set a \<Longrightarrow> splitOn d (a @ d # b) = a # splitOn d b"
  by (induction a) auto

lemma digits_no_dash: "list_all isDigit a \<Longrightarrow> CHR ''-'' \<notin> set a"
  by (induction a) (auto simp: isDigit_def)

lemma digits_no_eq: "list_all isDigit a \<Longrightarrow> CHR ''='' \<notin> set a"
  by (induction a) (auto simp: isDigit_def)

lemma dropWhile_digits: "list_all isDigit a \<Longrightarrow> \<not> isDigit c \<Longrightarrow> dropWhile isDigit (a @ c # b) = c # b"
  by (induction a) auto

lemma rangeHeaderMatches_bytes:
  assumes "list_all isDigit a" "list_all isDigit b"
  shows "rangeHeaderMatches (''bytes='' @ a @ ''-'' @ b)"
  using assms dropWhile_digits [of a "CHR ''-''" b]
  by (simp add: rangeHeaderMatches_def isDigit_def)

lemma rangeSpec_bytes:
  assumes "list_all isDigit a" "list_all isDigit b"
  shows "part (splitOn (CHR ''='') (''bytes='' @ a @ ''-'' @ b)) 1 = a @ ''-'' @ b"
proof -
  have "CHR ''='' \<notin> set (a @ ''-'' @ b)"
    using assms digits_no_eq by auto
  then have "splitOn (CHR ''='') (a @ ''-'' @ b) = [a @ ''-'' @ b]"
    by (rule splitOn_notin)
  moreover have "splitOn (CHR ''='') (''bytes='' @ a @ ''-'' @ b)
      = ''bytes'' # splitOn (CHR ''='') (a @ ''-'' @ b)"
    using splitOn_append [of "CHR ''=''" "''bytes''" "a @ ''-'' @ b"] by simp
  ultimately show ?thesis by (simp add: part_def)
qed

lemma rangeParts_bytes:
  assumes "list_all isDigit a" "list_all isDigit b"
  shows "splitOn (CHR ''-'') (a @ ''-'' @ b) = [a, b]"
  using assms splitOn_append [of "CHR ''-''" a b] splitOn_notin [of "CHR ''-''" b]
    digits_no_dash by simp

lemmas range_defs = streamFileResponse_def setHeader_def emptyResponse_def part_def
  rangeHeaderMatches_def parseInt_def digitsValue_def toDouble_def exactLimit_def finiteOr_def
  digitVal_def digitChar_def

text \<open>Below \<open>2\<^sup>5\<^sup>3\<close> the parsed number is the integer that the digits denote; above, it is
  at least \<open>2\<^sup>5\<^sup>3\<close> or infinite, and it is finite below \<open>2\<^sup>1\<^sup>0\<^sup>2\<^sup>3\<close>.\<close>

lemma parseInt_exact: "digitsValue a < exactLimit \<Longrightarrow> parseInt a = Finite (digitsValue a)"
  by (simp add: parseInt_def toDouble_def)

lemma bitLength_bounds: "0 < n \<Longrightarrow> 2 ^ (bitLength n - 1) \<le> n \<and> n < 2 ^ bitLength n"
proof (induction n rule: bitLength.induct)
  case (1 n)
  show ?case
  proof (cases "n div 2 = 0")
    case True
    then have "n = 1" using 1(2) by (simp add: div_eq_0_iff) 
    then show ?thesis
      by (simp add: bitLength.simps [of "Suc 0"] bitLength.simps [of 0])
  next
    case False
    then have ih: "2 ^ (bitLength (n div 2) - 1) \<le> n div 2" "n div 2 < 2 ^ bitLength (n div 2)"
      using 1 by auto
    have pos: "0 < bitLength (n div 2)"
      using False by (simp add: bitLength.simps [of "n div 2"])
    have b: "bitLength n = Suc (bitLength (n div 2))"
      using 1(2) by (simp add: bitLength.simps [of n])
    have "2 * 2 ^ (bitLength (n div 2) - 1) \<le> n" using ih(1) by linarith
    moreover have "2 * 2 ^ (bitLength (n div 2) - 1) = (2::nat) ^ bitLength (n div 2)"
      using pos by (cases "bitLength (n div 2)") simp_all
    moreover have "n < 2 * 2 ^ bitLength (n div 2)" using ih(2) by linarith
    ultimately show ?thesis by (simp add: b)
  qed
qed

lemma toDouble_large:
  assumes "exactLimit \<le> n"
  shows "toDouble n = PosInfinity \<or> (\<exists>m. toDouble n = Finite m \<and> exactLimit \<le> m)"
proof -
  have n0: "0 < n" using assms by (simp add: exactLimit_def)
  let ?e = "bitLength n - 53"
  have lt: "(2::nat) ^ 53 < 2 ^ bitLength n"
    using bitLength_bounds [OF n0] assms by (simp add: exactLimit_def)
  then have bl: "53 < bitLength n"
    using power_less_imp_less_exp [of 2 53 "bitLength n"] by simp
  have e1: "1 \<le> ?e" using bl by simp
  have "(2::nat) ^ (52 + ?e) = 2 ^ (bitLength n - 1)" using bl by simp
  then have "(2::nat) ^ 52 * 2 ^ ?e \<le> n"
    using bitLength_bounds [OF n0] by (simp add: power_add)
  then have q: "(2::nat) ^ 52 \<le> n div 2 ^ ?e"
    by (simp add: less_eq_div_iff_mult_less_eq)
  have two: "(2::nat) \<le> 2 ^ ?e"
    using e1 self_le_power [of "2::nat" ?e] by simp
  have big: "\<And>m. n div 2 ^ ?e \<le> m \<Longrightarrow> exactLimit \<le> m * 2 ^ ?e"
  proof -
    fix m assume "n div 2 ^ ?e \<le> m"
    then have "(2::nat) ^ 52 \<le> m" using q by linarith
    then have "(2::nat) ^ 52 * 2 \<le> m * 2 ^ ?e" using two by (rule mult_le_mono)
    then show "exactLimit \<le> m * 2 ^ ?e" by (simp add: exactLimit_def)
  qed
  show ?thesis
    using assms big [of "n div 2 ^ ?e"] big [of "n div 2 ^ ?e + 1"]
    by (auto simp: toDouble_def Let_def)
qed

lemma toDouble_finite:
  assumes "n < 2 ^ 1023"
  shows "toDouble n \<noteq> PosInfinity"
proof (cases "n < exactLimit")
  case True
  then show ?thesis by (simp add: toDouble_def)
next
  case False
  then have n0: "0 < n" by (simp add: exactLimit_def)
  let ?e = "bitLength n - 53"
  have "(2::nat) ^ 53 < 2 ^ bitLength n"
    using bitLength_bounds [OF n0] False by (simp add: exactLimit_def)
  then have bl: "53 < bitLength n"
    using power_less_imp_less_exp [of 2 53 "bitLength n"] by simp
  have "(2::nat) ^ (bitLength n - 1) < 2 ^ 1023"
    using bitLength_bounds [OF n0] assms by linarith
  then have "bitLength n - 1 < 1023"
    using power_less_imp_less_exp [of 2 "bitLength n - 1" 1023] by simp
  then have le: "bitLength n \<le> 1023" by simp
  have "(2::nat) ^ (53 + ?e) = 2 ^ bitLength n" using bl by simp
  then have s: "(2::nat) ^ 53 * 2 ^ ?e = 2 ^ bitLength n"
    by (simp only: power_add)
  have "n < 2 ^ 53 * 2 ^ ?e" using bitLength_bounds [OF n0] s by simp
  then have "n div 2 ^ ?e < 2 ^ 53"
    by (simp add: less_mult_imp_div_less mult.commute)
  then have q1: "n div 2 ^ ?e + 1 \<le> 2 ^ 53" by simp
  have up: "\<And>m. m \<le> 2 ^ 53 \<Longrightarrow> m * 2 ^ ?e < doubleLimit"
  proof -
    fix m :: nat assume "m \<le> 2 ^ 53"
    then have "m * 2 ^ ?e \<le> 2 ^ 53 * 2 ^ ?e" by (rule mult_le_mono1)
    also have "\<dots> = 2 ^ bitLength n" by (rule s)
    also have "\<dots> \<le> (2::nat) ^ 1023" using le by (rule power_increasing) simp
    also have "\<dots> < doubleLimit" by (simp add: doubleLimit_def)
    finally show "m * 2 ^ ?e < doubleLimit" .
  qed
  show ?thesis
    using False up [of "n div 2 ^ ?e"] up [of "n div 2 ^ ?e + 1"] q1
    by (auto simp: toDouble_def Let_def)
qed

lemma toDouble_overflow:
  assumes "doubleLimit \<le> n"
  shows "toDouble n = PosInfinity"
proof -
  have n0: "0 < n" using assms by (simp add: doubleLimit_def)
  let ?e = "bitLength n - 53"
  have "(2::nat) ^ 1024 < 2 ^ bitLength n"
    using bitLength_bounds [OF n0] assms unfolding doubleLimit_def by linarith
  then have bl: "1024 < bitLength n"
    using power_less_imp_less_exp [of 2 1024 "bitLength n"] by simp
  have "(2::nat) ^ (52 + ?e) = 2 ^ (bitLength n - 1)" using bl by simp
  then have "(2::nat) ^ 52 * 2 ^ ?e \<le> n"
    using bitLength_bounds [OF n0] by (simp only: power_add)
  then have q: "(2::nat) ^ 52 \<le> n div 2 ^ ?e"
    by (simp add: less_eq_div_iff_mult_less_eq)
  have "972 \<le> ?e" using bl by simp
  then have e: "(2::nat) ^ 972 \<le> 2 ^ ?e" by (rule power_increasing) simp
  have d: "(2::nat) ^ 52 * 2 ^ 972 = doubleLimit"
    unfolding doubleLimit_def power_add [symmetric] by simp
  have big: "\<And>m. n div 2 ^ ?e \<le> m \<Longrightarrow> doubleLimit \<le> m * 2 ^ ?e"
  proof -
    fix m assume "n div 2 ^ ?e \<le> m"
    then have "(2::nat) ^ 52 \<le> m" using q by linarith
    then have "(2::nat) ^ 52 * 2 ^ 972 \<le> m * 2 ^ ?e" using e by (rule mult_le_mono)
    then show "doubleLimit \<le> m * 2 ^ ?e" unfolding d .
  qed
  have x: "\<not> n < exactLimit"
    using assms by (simp add: exactLimit_def doubleLimit_def)
  show ?thesis
    using x big [of "n div 2 ^ ?e"] big [of "n div 2 ^ ?e + 1"]
    by (simp add: toDouble_def Let_def)
qed

lemmas result_defs = resultStatus_def resultHeader_def resultBody_def

lemma rangeBounds_bytes:
  assumes "list_all isDigit a" "list_all isDigit b" and "h = ''bytes='' @ a @ ''-'' @ b"
  shows "rangeHeaderMatches h" and "h \<noteq> []"
    and "part (splitOn (CHR ''-'') (part (splitOn (CHR ''='') h) (Suc 0))) 0 = a"
    and "part (splitOn (CHR ''-'') (part (splitOn (CHR ''='') h) (Suc 0))) (Suc 0) = b"
proof -
  show "rangeHeaderMatches h" and "h \<noteq> []"
    using assms rangeHeaderMatches_bytes by auto
  have s: "part (splitOn (CHR ''='') h) (Suc 0) = a @ ''-'' @ b"
    using assms rangeSpec_bytes by simp
  have p: "splitOn (CHR ''-'') (a @ ''-'' @ b) = [a, b]"
    using assms rangeParts_bytes by simp
  show "part (splitOn (CHR ''-'') (part (splitOn (CHR ''='') h) (Suc 0))) 0 = a"
    unfolding s p by (simp add: part_def)
  show "part (splitOn (CHR ''-'') (part (splitOn (CHR ''='') h) (Suc 0))) (Suc 0) = b"
    unfolding s p by (simp add: part_def)
qed

lemma streamFileResponse_unsatisfiable:
  assumes "st_isFile stats" "list_all isDigit a" "list_all isDigit b"
    and "h = ''bytes='' @ a @ ''-'' @ b"
    and "parseInt a = Finite n" and "n \<ge> length (st_contents stats)"
  shows "resultStatus (streamFileResponse (Some h) res (Some stats) False pipe) = Some 416"
    and "resultHeader (streamFileResponse (Some h) res (Some stats) False pipe) ''Content-Range''
         = Some (''bytes */'' @ showNat (length (st_contents stats)))"
    and "resultBody (streamFileResponse (Some h) res (Some stats) False pipe) = Some []"
proof -
  note rb = rangeBounds_bytes [OF assms(2,3,4)]
  have z: "a = [] \<Longrightarrow> st_contents stats = []"
    using assms(5,6) by (simp add: parseInt_def digitsValue_def toDouble_def exactLimit_def)
  show "resultStatus (streamFileResponse (Some h) res (Some stats) False pipe) = Some 416"
    using assms(1,6) z
    by (simp add: streamFileResponse_def result_defs orEmpty_def rb Let_def assms(5)
        finiteOr_def)
  show "resultHeader (streamFileResponse (Some h) res (Some stats) False pipe) ''Content-Range''
         = Some (''bytes */'' @ showNat (length (st_contents stats)))"
    using assms(1,6) z
    by (simp add: streamFileResponse_def result_defs orEmpty_def rb Let_def setHeader_def
        assms(5) finiteOr_def)
  show "resultBody (streamFileResponse (Some h) res (Some stats) False pipe) = Some []"
    using assms(1,6) z
    by (simp add: streamFileResponse_def result_defs orEmpty_def rb Let_def assms(5)
        finiteOr_def)
qed

lemma streamFileResponse_open_end:
  assumes "st_isFile stats" "list_all isDigit a"
    and "h = ''bytes='' @ a @ ''-''"
    and "parseInt a = Finite n" and "n < length (st_contents stats)"
  shows "resultStatus (streamFileResponse (Some h) res (Some stats) False PipeOk) = Some 206"
    and "resultHeader (streamFileResponse (Some h) res (Some stats) False PipeOk) ''Content-Range''
         = Some (''bytes '' @ showNat n @ ''-'' @
                 showNat (length (st_contents stats) - 1) @ ''/'' @
                 showNat (length (st_contents stats)))"
    and "resultBody (streamFileResponse (Some h) res (Some stats) False PipeOk)
         = Some (drop n (st_contents stats))"
proof -
  have h': "h = ''bytes='' @ a @ ''-'' @ []" using assms(3) by simp
  have e: "list_all isDigit []" by simp
  note rb = rangeBounds_bytes [OF assms(2) e h']
  have z: "a = [] \<Longrightarrow> n = 0"
    using assms(4) by (simp add: parseInt_def digitsValue_def toDouble_def exactLimit_def)
  have c: "st_contents stats \<noteq> []" using assms(5) by auto
  have n: "nat (int (length (st_contents stats)) - 1) = length (st_contents stats) - 1"
    by simp
  show "resultStatus (streamFileResponse (Some h) res (Some stats) False PipeOk) = Some 206"
    using assms(1,5) z c
    by (simp add: streamFileResponse_def result_defs orEmpty_def rb Let_def assms(4)
        finiteOr_def)
  show "resultHeader (streamFileResponse (Some h) res (Some stats) False PipeOk) ''Content-Range''
         = Some (''bytes '' @ showNat n @ ''-'' @
                 showNat (length (st_contents stats) - 1) @ ''/'' @
                 showNat (length (st_contents stats)))"
    using assms(1,5) z n c
    by (simp add: streamFileResponse_def result_defs orEmpty_def rb Let_def setHeader_def
        assms(4) finiteOr_def)
  show "resultBody (streamFileResponse (Some h) res (Some stats) False PipeOk)
         = Some (drop n (st_contents stats))"
    using assms(1,5) z c
    by (simp add: streamFileResponse_def result_defs orEmpty_def rb Let_def assms(4)
        finiteOr_def)
qed

text \<open>A start bound that \<^verbatim>\<open>Number.parseInt\<close> reads as \<^verbatim>\<open>Infinity\<close> is discarded: the file is
  served from its first byte.\<close>

lemma streamFileResponse_overlong_start:
  assumes "st_isFile stats" "list_all isDigit a"
    and "h = ''bytes='' @ a @ ''-''"
    and "parseInt a = PosInfinity" and "st_contents stats \<noteq> []"
  shows "resultStatus (streamFileResponse (Some h) res (Some stats) False PipeOk) = Some 206"
    and "resultBody (streamFileResponse (Some h) res (Some stats) False PipeOk)
         = Some (st_contents stats)"
proof -
  have h': "h = ''bytes='' @ a @ ''-'' @ []" using assms(3) by simp
  have e: "list_all isDigit []" by simp
  note rb = rangeBounds_bytes [OF assms(2) e h']
  show "resultStatus (streamFileResponse (Some h) res (Some stats) False PipeOk) = Some 206"
    using assms(1,5)
    by (simp add: streamFileResponse_def result_defs orEmpty_def rb Let_def assms(4)
        finiteOr_def)
  show "resultBody (streamFileResponse (Some h) res (Some stats) False PipeOk)
         = Some (st_contents stats)"
    using assms(1,5)
    by (simp add: streamFileResponse_def result_defs orEmpty_def rb Let_def assms(4)
        finiteOr_def)
qed

lemma streamFileResponse_first_byte:
  assumes "st_isFile stats" and "st_contents stats \<noteq> []"
  shows "resultStatus (streamFileResponse (Some ''bytes=0-0'') res (Some stats) False PipeOk)
         = Some 206"
    and "resultHeader (streamFileResponse (Some ''bytes=0-0'') res (Some stats) False PipeOk)
           ''Content-Range'' = Some (''bytes 0-0/'' @ showNat (length (st_contents stats)))"
    and "resultHeader (streamFileResponse (Some ''bytes=0-0'') res (Some stats) False PipeOk)
           ''Content-Length'' = Some ''1''"
    and "resultBody (streamFileResponse (Some ''bytes=0-0'') res (Some stats) False PipeOk)
         = Some [hd (st_contents stats)]"
proof -
  have s0: "showNat 0 = ''0''" and s1: "showNat 1 = ''1''"
    by (simp_all add: showNat.simps digitChar_def)
  have t: "take (Suc 0) (st_contents stats) = [hd (st_contents stats)]"
    using assms(2) by (cases "st_contents stats") simp_all
  note d = streamFileResponse_def result_defs orEmpty_def part_def Let_def
    rangeHeaderMatches_def isDigit_def parseInt_def digitsValue_def toDouble_def exactLimit_def
    finiteOr_def digitVal_def
  show "resultStatus (streamFileResponse (Some ''bytes=0-0'') res (Some stats) False PipeOk)
         = Some 206"
    using assms by (simp add: d)
  show "resultHeader (streamFileResponse (Some ''bytes=0-0'') res (Some stats) False PipeOk)
           ''Content-Range'' = Some (''bytes 0-0/'' @ showNat (length (st_contents stats)))"
    using assms s0 by (simp add: d setHeader_def)
  show "resultHeader (streamFileResponse (Some ''bytes=0-0'') res (Some stats) False PipeOk)
           ''Content-Length'' = Some ''1''"
    using assms s1 by (simp add: d setHeader_def)
  show "resultBody (streamFileResponse (Some ''bytes=0-0'') res (Some stats) False PipeOk)
         = Some [hd (st_contents stats)]"
    using assms t by (simp add: d)
qed

section \<open>Results: ranged responses\<close>

text \<open>
  Claim C8 as stated fails for an empty file: with \<open>S = 0\<close> the request
  \<^verbatim>\<open>Range: bytes=0-0\<close> has \<open>start \<ge> S\<close> and is answered with 416 and
  \<^verbatim>\<open>Content-Range: bytes */0\<close>, not with 206 and one byte.
\<close>

theorem streamFileResponse_empty_file_counterexample:
  "resultStatus (streamFileResponse (Some ''bytes=0-0'') emptyResponse
      (Some \<lparr>st_isFile = True, st_mtime = ''Thu, 01 Jan 1970 00:00:00 GMT'', st_contents = []\<rparr>)
      False PipeOk) = Some 416
   \<and> resultHeader (streamFileResponse (Some ''bytes=0-0'') emptyResponse
      (Some \<lparr>st_isFile = True, st_mtime = ''Thu, 01 Jan 1970 00:00:00 GMT'', st_contents = []\<rparr>)
      False PipeOk) ''Content-Range'' = Some ''bytes */0''
   \<and> resultBody (streamFileResponse (Some ''bytes=0-0'') emptyResponse
      (Some \<lparr>st_isFile = True, st_mtime = ''Thu, 01 Jan 1970 00:00:00 GMT'', st_contents = []\<rparr>)
      False PipeOk) = Some []"
  by (simp add: range_defs result_defs js_string_defs showNat.simps)

text \<open>
  Claim C8, amended: for a GET request (no HEAD emulation) over a regular file of size
  \<open>S \<le> 2\<^sup>5\<^sup>3\<close> with header \<^verbatim>\<open>Range: bytes=a-b\<close> (\<open>a\<close>, \<open>b\<close> strings of decimal digits):
  an empty end bound with \<open>a < S\<close> serves the bytes from \<open>a\<close> to the end of the file with
  status 206 and \<^verbatim>\<open>Content-Range: bytes a-(S-1)/S\<close>; if \<open>a \<ge> S\<close> and \<open>a\<close> is a finite number
  for \<^verbatim>\<open>Number.parseInt\<close> (as every \<open>a\<close> below \<open>2\<^sup>1\<^sup>0\<^sup>2\<^sup>3\<close> is) the response is 416 with
  \<^verbatim>\<open>Content-Range: bytes */S\<close> and no body; and for \<open>S \<ge> 1\<close>, \<^verbatim>\<open>Range: bytes=0-0\<close> yields
  status 206, exactly the first byte, \<^verbatim>\<open>Content-Range: bytes 0-0/S\<close> and
  \<^verbatim>\<open>Content-Length: 1\<close>.
\<close>

theorem streamFileResponse_range_contract:
  assumes "st_isFile stats" and "list_all isDigit a" and "list_all isDigit b"
    and "length (st_contents stats) \<le> exactLimit"
  shows "(digitsValue a < length (st_contents stats) \<longrightarrow>
            resultStatus (streamFileResponse (Some (''bytes='' @ a @ ''-'')) res (Some stats)
                            False PipeOk) = Some 206
          \<and> resultHeader (streamFileResponse (Some (''bytes='' @ a @ ''-'')) res (Some stats)
                            False PipeOk) ''Content-Range''
              = Some (''bytes '' @ showNat (digitsValue a) @ ''-'' @
                      showNat (length (st_contents stats) - 1) @ ''/'' @
                      showNat (length (st_contents stats)))
          \<and> resultBody (streamFileResponse (Some (''bytes='' @ a @ ''-'')) res (Some stats)
                            False PipeOk) = Some (drop (digitsValue a) (st_contents stats)))
       \<and> (length (st_contents stats) \<le> digitsValue a
            \<and> (parseInt a \<noteq> PosInfinity \<or> digitsValue a < 2 ^ 1023) \<longrightarrow>
            resultStatus (streamFileResponse (Some (''bytes='' @ a @ ''-'' @ b)) res (Some stats)
                            False pipe) = Some 416
          \<and> resultHeader (streamFileResponse (Some (''bytes='' @ a @ ''-'' @ b)) res (Some stats)
                            False pipe) ''Content-Range''
              = Some (''bytes */'' @ showNat (length (st_contents stats)))
          \<and> resultBody (streamFileResponse (Some (''bytes='' @ a @ ''-'' @ b)) res (Some stats)
                            False pipe) = Some [])
       \<and> (st_contents stats \<noteq> [] \<longrightarrow>
            resultStatus (streamFileResponse (Some ''bytes=0-0'') res (Some stats)
                            False PipeOk) = Some 206
          \<and> resultHeader (streamFileResponse (Some ''bytes=0-0'') res (Some stats)
                            False PipeOk) ''Content-Range''
              = Some (''bytes 0-0/'' @ showNat (length (st_contents stats)))
          \<and> resultHeader (streamFileResponse (Some ''bytes=0-0'') res (Some stats)
                            False PipeOk) ''Content-Length'' = Some ''1''
          \<and> resultBody (streamFileResponse (Some ''bytes=0-0'') res (Some stats)
                            False PipeOk) = Some [hd (st_contents stats)])"
proof -
  have c1: "digitsValue a < length (st_contents stats) \<Longrightarrow>
      parseInt a = Finite (digitsValue a)"
    using assms(4) by (simp add: parseInt_exact)
  have c2: "\<exists>n. parseInt a = Finite n \<and> length (st_contents stats) \<le> n"
    if "length (st_contents stats) \<le> digitsValue a"
      and "parseInt a \<noteq> PosInfinity \<or> digitsValue a < 2 ^ 1023"
  proof -
    have fin: "parseInt a \<noteq> PosInfinity"
      using that(2) toDouble_finite [of "digitsValue a"] by (auto simp: parseInt_def)
    show ?thesis
    proof (cases "digitsValue a < exactLimit")
      case True
      then show ?thesis using that(1) by (simp add: parseInt_exact)
    next
      case False
      then show ?thesis
        using toDouble_large [of "digitsValue a"] fin assms(4) by (auto simp: parseInt_def)
    qed
  qed
  show ?thesis
    using streamFileResponse_open_end [OF assms(1,2) refl, of "digitsValue a" res] c1
      streamFileResponse_unsatisfiable [OF assms(1,2,3) refl, of _ res pipe] c2
      streamFileResponse_first_byte [OF assms(1), of res]
    by blast
qed

theorem streamFileResponse_range_contract_witness:
  "st_isFile \<lparr>st_isFile = True, st_mtime = ''m'', st_contents = [10, 20, 30]\<rparr>
   \<and> list_all isDigit ''1'' \<and> list_all isDigit []
   \<and> length [10, 20, 30 :: nat] \<le> exactLimit
   \<and> digitsValue ''1'' < length [10, 20, 30 :: nat]
   \<and> resultStatus (streamFileResponse (Some ''bytes=1-'') emptyResponse
        (Some \<lparr>st_isFile = True, st_mtime = ''m'', st_contents = [10, 20, 30]\<rparr>) False PipeOk)
      = Some 206
   \<and> resultHeader (streamFileResponse (Some ''bytes=1-'') emptyResponse
        (Some \<lparr>st_isFile = True, st_mtime = ''m'', st_contents = [10, 20, 30]\<rparr>) False PipeOk)
        ''Content-Range'' = Some ''bytes 1-2/3''
   \<and> resultBody (streamFileResponse (Some ''bytes=1-'') emptyResponse
        (Some \<lparr>st_isFile = True, st_mtime = ''m'', st_contents = [10, 20, 30]\<rparr>) False PipeOk)
      = Some [20, 30]
   \<and> resultBody (streamFileResponse (Some ''bytes=0-0'') emptyResponse
        (Some \<lparr>st_isFile = True, st_mtime = ''m'', st_contents = [10, 20, 30]\<rparr>) False PipeOk)
      = Some [10]
   \<and> resultHeader (streamFileResponse (Some ''bytes=0-0'') emptyResponse
        (Some \<lparr>st_isFile = True, st_mtime = ''m'', st_contents = [10, 20, 30]\<rparr>) False PipeOk)
        ''Content-Range'' = Some ''bytes 0-0/3''
   \<and> list_all isDigit ''5'' \<and> list_all isDigit ''9''
   \<and> length [10, 20, 30 :: nat] \<le> digitsValue ''5''
   \<and> parseInt ''5'' \<noteq> PosInfinity
   \<and> resultStatus (streamFileResponse (Some ''bytes=5-9'') emptyResponse
        (Some \<lparr>st_isFile = True, st_mtime = ''m'', st_contents = [10, 20, 30]\<rparr>) False PipeOk)
      = Some 416
   \<and> resultHeader (streamFileResponse (Some ''bytes=5-9'') emptyResponse
        (Some \<lparr>st_isFile = True, st_mtime = ''m'', st_contents = [10, 20, 30]\<rparr>) False PipeOk)
        ''Content-Range'' = Some ''bytes */3''"
proof -
  let ?st = "\<lparr>st_isFile = True, st_mtime = ''m'', st_contents = [10, 20, 30 :: nat]\<rparr>"
  have f: "st_isFile ?st" by simp
  have d1: "list_all isDigit ''1''" and d0: "list_all isDigit []"
    and d5: "list_all isDigit ''5''" and d9: "list_all isDigit ''9''"
    by (simp_all add: isDigit_def)
  have l: "length (st_contents ?st) \<le> exactLimit" by (simp add: exactLimit_def)
  have p1: "digitsValue ''1'' = 1" and p5: "digitsValue ''5'' = 5"
    by (simp_all add: digitsValue_def digitVal_def)
  have q5: "parseInt ''5'' \<noteq> PosInfinity"
    by (simp add: parseInt_def toDouble_def exactLimit_def p5)
  have s: "showNat 1 = ''1''" "showNat 2 = ''2''" "showNat 3 = ''3''"
    by (simp_all add: showNat.simps digitChar_def)
  have s': "showNat (Suc 0) = ''1''" "showNat (Suc (Suc 0)) = ''2''"
      "showNat (Suc (Suc (Suc 0))) = ''3''"
    using s by (simp_all add: numeral_2_eq_2 numeral_3_eq_3)
  from streamFileResponse_range_contract [OF f d1 d0 l, of emptyResponse PipeOk]
    streamFileResponse_range_contract [OF f d5 d9 l, of emptyResponse PipeOk]
  show ?thesis
    using q5 by (simp add: p1 p5 s' isDigit_def exactLimit_def)
qed

section \<open>Results: decision synthesis\<close>

lemmas summary_defs =
  summarizeDecision_def analyzerDecision_def buildDecision_def positiveFinding_def
  sevenZipFlag_def findingLabel_def startsWith_def

lemma summarize_status_cases:
  "s_status (summarizeDecision (analyzerDecision blockers warnings meta)) =
     (if blockers \<noteq> [] then ''blocked''
      else if positiveFinding (m_archiveFindings meta) then ''verified''
      else if sevenZipFlag (m_archiveFindings meta) warnings then ''unverified_7z''
      else ''unverified'')"
  by (simp add: summarizeDecision_def analyzerDecision_def buildDecision_def Let_def)

text \<open>
  Claim C2 holds of the code except for the upgrade to \<open>unverified_7z\<close>.  The comment above
  the upgrade in \<^verbatim>\<open>summarizeDecision\<close> says that it flags the outcomes that are 7z-only, as the
  claim does; the code tests whether some finding or some warning starts with \<open>sevenzip\<close>.
  For an NZB with a RAR volume and a 7z archive that are both found truncated, the analyzer
  accepts without blockers and without a positive finding, the evidence is a RAR finding
  and a 7z finding, and the summarized status is \<open>unverified_7z\<close> where the claim says
  \<open>unverified\<close>.
\<close>

theorem summarizeDecision_mixed_evidence:
  "d_decision mixedEvidence = ''accept''
   \<and> d_blockers mixedEvidence = []
   \<and> map findingLabel (d_archiveFindings mixedEvidence)
       = [''rar-insufficient-data'', ''sevenzip-insufficient-data'']
   \<and> d_warnings mixedEvidence
       = [''rar-insufficient-data'', ''sevenzip-insufficient-data'', ''nntp-disabled'',
          ''rar-m0-unverified'']
   \<and> \<not> positiveFinding (d_archiveFindings mixedEvidence)
   \<and> s_status (summarizeDecision mixedEvidence) = ''unverified_7z''"
  by code_simp


section \<open>Results: resolution detection\<close>

lemma firstMatch_label: "firstMatch ps t \<in> insert None (Some ` fst ` set ps)"
  by (induction ps t rule: firstMatch.induct) auto

lemma normalizeResolutionLabel_closed: "normalizeResolutionLabel v \<in> resolutionLabels"
  by (simp add: normalizeResolutionLabel_def resolutionLabels_def RESOLUTION_PREFERENCES_def
      Let_def split: option.split)

lemma numeric_closed: "firstMatch RESOLUTION_NUMERIC_PATTERNS t \<in> resolutionLabels"
proof -
  have "insert None (Some ` fst ` set RESOLUTION_NUMERIC_PATTERNS) \<subseteq> resolutionLabels"
    by (simp add: RESOLUTION_NUMERIC_PATTERNS_def RESOLUTION_PREFERENCES_def
        resolutionLabels_def)
  then show ?thesis using firstMatch_label by blast
qed

lemma synonym_closed: "firstMatch RESOLUTION_SYNONYM_PATTERNS t \<in> resolutionLabels"
proof -
  have "insert None (Some ` fst ` set RESOLUTION_SYNONYM_PATTERNS) \<subseteq> resolutionLabels"
    by (simp add: RESOLUTION_SYNONYM_PATTERNS_def RESOLUTION_PREFERENCES_def
        resolutionLabels_def)
  then show ?thesis using firstMatch_label by blast
qed

lemma detectResolution_closed: "detectResolution t p \<in> resolutionLabels"
proof (cases "truthy (p_resolution p) \<and> normalizeResolutionLabel (p_resolution p) \<noteq> None")
  case True
  then show ?thesis
    using normalizeResolutionLabel_closed by (simp add: detectResolution_def)
next
  case False
  note f = this
  show ?thesis
  proof (cases "firstMatch RESOLUTION_NUMERIC_PATTERNS t")
    case (Some l)
    then show ?thesis
      using f numeric_closed [of t] by (auto simp: detectResolution_def)
  next
    case None
    then show ?thesis
      using f normalizeResolutionLabel_closed [of "p_quality p"] synonym_closed [of t]
      by (auto simp: detectResolution_def)
  qed
qed

lemma detectResolution_uhd_is_720p:
  "detectResolution ''Movie.UHD.WEB'' emptyParsed = Some ''720p''"
  by code_simp

text \<open>
  Claim C4 as stated fails: for a title in which nothing matches the detected resolution is
  \<^verbatim>\<open>null\<close> (\<^term>\<open>None\<close>), not the label \<open>unknown\<close>.
\<close>

theorem detectResolution_null_counterexample:
  "rm_resolution (parseReleaseMetadata noParser ''Some.Movie.2023.WEB'') = None"
  by code_simp

text \<open>
  Claim C4, amended: for every title string (and whatever the external title parser
  returns), the release parser's detected resolution is \<^verbatim>\<open>null\<close> or one of the ten labels
  4320p, 2160p, 1440p, 1080p, 720p, 576p, 540p, 480p, 360p, 240p.  Detection uses the
  parser's resolution field first when it normalizes to a label; otherwise the first
  matching entry of the numeric pattern table (which carries the aliases
  \<open>fullhd\<close>/\<open>fhd\<close> for 1080p, \<open>hd\<close> for 720p and \<open>sd\<close> for 480p); otherwise the parser's quality
  field when it normalizes to a label; otherwise the first matching entry of the synonym
  table (\<open>8k\<close> for 4320p, \<open>4k\<close> for 2160p); and when none of these match the result is
  \<^verbatim>\<open>null\<close>, for which the quality score is 0.
\<close>

theorem detectResolution_contract:
  "rm_resolution (parseReleaseMetadata ptt title) = detectResolution title (ptt title)
   \<and> detectResolution title parsed \<in> resolutionLabels
   \<and> (usableLabel (p_resolution parsed) \<longrightarrow>
        detectResolution title parsed = normalizeResolutionLabel (p_resolution parsed))
   \<and> (\<not> usableLabel (p_resolution parsed)
        \<and> firstMatch RESOLUTION_NUMERIC_PATTERNS title \<noteq> None \<longrightarrow>
        detectResolution title parsed = firstMatch RESOLUTION_NUMERIC_PATTERNS title)
   \<and> (\<not> usableLabel (p_resolution parsed)
        \<and> firstMatch RESOLUTION_NUMERIC_PATTERNS title = None
        \<and> usableLabel (p_quality parsed) \<longrightarrow>
        detectResolution title parsed = normalizeResolutionLabel (p_quality parsed))
   \<and> (\<not> usableLabel (p_resolution parsed)
        \<and> firstMatch RESOLUTION_NUMERIC_PATTERNS title = None
        \<and> \<not> usableLabel (p_quality parsed) \<longrightarrow>
        detectResolution title parsed = firstMatch RESOLUTION_SYNONYM_PATTERNS title)
   \<and> (\<not> usableLabel (p_resolution parsed)
        \<and> firstMatch RESOLUTION_NUMERIC_PATTERNS title = None
        \<and> \<not> usableLabel (p_quality parsed)
        \<and> firstMatch RESOLUTION_SYNONYM_PATTERNS title = None \<longrightarrow>
        detectResolution title parsed = None \<and> qualityScoreOf (detectResolution title parsed) = 0)"
proof -
  have a: "rm_resolution (parseReleaseMetadata ptt title) = detectResolution title (ptt title)"
    by (simp add: parseReleaseMetadata_def Let_def)
  have b: "detectResolution title parsed \<in> resolutionLabels"
    by (rule detectResolution_closed)
  have c: "usableLabel (p_resolution parsed) \<Longrightarrow>
        detectResolution title parsed = normalizeResolutionLabel (p_resolution parsed)"
    by (simp add: detectResolution_def usableLabel_def)
  have d: "\<not> usableLabel (p_resolution parsed) \<Longrightarrow>
        firstMatch RESOLUTION_NUMERIC_PATTERNS title \<noteq> None \<Longrightarrow>
        detectResolution title parsed = firstMatch RESOLUTION_NUMERIC_PATTERNS title"
    by (auto simp: detectResolution_def usableLabel_def)
  have e: "\<not> usableLabel (p_resolution parsed) \<Longrightarrow>
        firstMatch RESOLUTION_NUMERIC_PATTERNS title = None \<Longrightarrow>
        usableLabel (p_quality parsed) \<Longrightarrow>
        detectResolution title parsed = normalizeResolutionLabel (p_quality parsed)"
    by (auto simp: detectResolution_def usableLabel_def)
  have f: "\<not> usableLabel (p_resolution parsed) \<Longrightarrow>
        firstMatch RESOLUTION_NUMERIC_PATTERNS title = None \<Longrightarrow>
        \<not> usableLabel (p_quality parsed) \<Longrightarrow>
        detectResolution title parsed = firstMatch RESOLUTION_SYNONYM_PATTERNS title"
    by (auto simp: detectResolution_def usableLabel_def)
  have g: "qualityScoreOf None = 0" by (simp add: qualityScoreOf_def)
  from a b c d e f g show ?thesis by metis
qed

theorem detectResolution_contract_witness:
  "usableLabel (p_resolution (emptyParsed\<lparr>p_resolution := Some ''1080p''\<rparr>))
   \<and> detectResolution ''Movie.720p.WEB'' (emptyParsed\<lparr>p_resolution := Some ''1080p''\<rparr>)
       = Some ''1080p''
   \<and> \<not> usableLabel (p_resolution emptyParsed) \<and> \<not> usableLabel (p_quality emptyParsed)
   \<and> firstMatch RESOLUTION_NUMERIC_PATTERNS ''A.2160p.sd'' = Some ''2160p''
   \<and> detectResolution ''A.2160p.sd'' emptyParsed = Some ''2160p''
   \<and> firstMatch RESOLUTION_NUMERIC_PATTERNS ''A.FullHD'' = Some ''1080p''
   \<and> detectResolution ''A.FullHD'' emptyParsed = Some ''1080p''
   \<and> firstMatch RESOLUTION_NUMERIC_PATTERNS ''A.SD.x'' = Some ''480p''
   \<and> detectResolution ''A.SD.x'' emptyParsed = Some ''480p''
   \<and> firstMatch RESOLUTION_NUMERIC_PATTERNS ''A.WEB'' = None
   \<and> usableLabel (p_quality (emptyParsed\<lparr>p_quality := Some ''4k''\<rparr>))
   \<and> detectResolution ''A.WEB'' (emptyParsed\<lparr>p_quality := Some ''4k''\<rparr>) = Some ''2160p''
   \<and> firstMatch RESOLUTION_NUMERIC_PATTERNS ''A.4K.x'' = None
   \<and> detectResolution ''A.4K.x'' emptyParsed = Some ''2160p''
   \<and> firstMatch RESOLUTION_NUMERIC_PATTERNS ''A.8k'' = None
   \<and> detectResolution ''A.8k'' emptyParsed = Some ''4320p''
   \<and> firstMatch RESOLUTION_SYNONYM_PATTERNS ''A.WEB'' = None
   \<and> detectResolution ''A.WEB'' emptyParsed = None
   \<and> qualityScoreOf (detectResolution ''A.WEB'' emptyParsed) = 0"
proof -
  let ?r = "emptyParsed\<lparr>p_resolution := Some ''1080p''\<rparr>"
  let ?q = "emptyParsed\<lparr>p_quality := Some ''4k''\<rparr>"
  have u1: "usableLabel (p_resolution ?r)" and n1: "normalizeResolutionLabel (p_resolution ?r) = Some ''1080p''"
    by code_simp+
  have u0: "\<not> usableLabel (p_resolution emptyParsed)" "\<not> usableLabel (p_quality emptyParsed)"
    "\<not> usableLabel (p_resolution ?q)"
    by code_simp+
  have m1: "firstMatch RESOLUTION_NUMERIC_PATTERNS ''A.2160p.sd'' = Some ''2160p''"
    and m2: "firstMatch RESOLUTION_NUMERIC_PATTERNS ''A.FullHD'' = Some ''1080p''"
    and m3: "firstMatch RESOLUTION_NUMERIC_PATTERNS ''A.SD.x'' = Some ''480p''"
    and m4: "firstMatch RESOLUTION_NUMERIC_PATTERNS ''A.WEB'' = None"
    and m5: "firstMatch RESOLUTION_NUMERIC_PATTERNS ''A.4K.x'' = None"
    and m6: "firstMatch RESOLUTION_NUMERIC_PATTERNS ''A.8k'' = None"
    by code_simp+
  have s4: "firstMatch RESOLUTION_SYNONYM_PATTERNS ''A.WEB'' = None"
    and s5: "firstMatch RESOLUTION_SYNONYM_PATTERNS ''A.4K.x'' = Some ''2160p''"
    and s6: "firstMatch RESOLUTION_SYNONYM_PATTERNS ''A.8k'' = Some ''4320p''"
    by code_simp+
  have uq: "usableLabel (p_quality ?q)" and nq: "normalizeResolutionLabel (p_quality ?q) = Some ''2160p''"
    by code_simp+
  have c1: "detectResolution ''Movie.720p.WEB'' ?r = Some ''1080p''"
    using detectResolution_contract [of noParser "''Movie.720p.WEB''" ?r] u1 n1 by metis
  have c2: "detectResolution ''A.2160p.sd'' emptyParsed = Some ''2160p''"
    using detectResolution_contract [of noParser "''A.2160p.sd''" emptyParsed] u0 m1
    by (metis option.distinct(1))
  have c3: "detectResolution ''A.FullHD'' emptyParsed = Some ''1080p''"
    using detectResolution_contract [of noParser "''A.FullHD''" emptyParsed] u0 m2
    by (metis option.distinct(1))
  have c4: "detectResolution ''A.SD.x'' emptyParsed = Some ''480p''"
    using detectResolution_contract [of noParser "''A.SD.x''" emptyParsed] u0 m3
    by (metis option.distinct(1))
  have c5: "detectResolution ''A.WEB'' ?q = Some ''2160p''"
    using detectResolution_contract [of noParser "''A.WEB''" ?q] u0 m4 uq nq by metis
  have c6: "detectResolution ''A.4K.x'' emptyParsed = Some ''2160p''"
    using detectResolution_contract [of noParser "''A.4K.x''" emptyParsed] u0 m5 s5 by metis
  have c7: "detectResolution ''A.8k'' emptyParsed = Some ''4320p''"
    using detectResolution_contract [of noParser "''A.8k''" emptyParsed] u0 m6 s6 by metis
  have c8: "detectResolution ''A.WEB'' emptyParsed = None
      \<and> qualityScoreOf (detectResolution ''A.WEB'' emptyParsed) = 0"
    using detectResolution_contract [of noParser "''A.WEB''" emptyParsed] u0 m4 s4 by metis
  show ?thesis
    using u1 u0 uq m1 m2 m3 m4 m5 m6 s4 c1 c2 c3 c4 c5 c6 c7 c8 by blast
qed


section \<open>Results: the stream response cache\<close>

lemma max_bytes_pos: "STREAM_CACHE_MAX_BYTES env > 0"
  by (simp add: STREAM_CACHE_MAX_BYTES_def split: option.split)

lemma ttl_nonneg: "STREAM_CACHE_TTL_MS env \<ge> 0"
  by (simp add: STREAM_CACHE_TTL_MS_def split: option.split)

lemma sizes_simps [simp]:
  "sizes [] = 0" "sizes ((k, e) # es) = e_size e + sizes es" "sizes (xs @ ys) = sizes xs + sizes ys"
  by (simp_all add: sizes_def)

lemma sizes_partition:
  "sizes (filter (\<lambda>(k, e). P k e) es) + sizes (filter (\<lambda>(k, e). \<not> P k e) es) = sizes es"
  by (induction es) auto

text \<open>The eviction loop drops a prefix of the list: the oldest entries, in insertion order.\<close>

lemma evictLoop_drop:
  "\<exists>n. n \<le> length es \<and> fst (evictLoop env es b) = drop n es
       \<and> snd (evictLoop env es b) = b - sizes (take n es)"
proof (induction es arbitrary: b)
  case Nil
  show ?case by simp
next
  case (Cons x es)
  obtain k e where x: "x = (k, e)" by (cases x)
  show ?case
  proof (cases "overLimit env ((k, e) # es) b \<and> k \<noteq> []")
    case True
    from Cons.IH [of "b - e_size e"] obtain n where
      n: "n \<le> length es" "fst (evictLoop env es (b - e_size e)) = drop n es"
         "snd (evictLoop env es (b - e_size e)) = b - e_size e - sizes (take n es)"
      by blast
    have "Suc n \<le> length (x # es) \<and> fst (evictLoop env (x # es) b) = drop (Suc n) (x # es)
       \<and> snd (evictLoop env (x # es) b) = b - sizes (take (Suc n) (x # es))"
      using True n x by simp
    then show ?thesis by blast
  next
    case False
    then have "0 \<le> length (x # es) \<and> fst (evictLoop env (x # es) b) = drop 0 (x # es)
       \<and> snd (evictLoop env (x # es) b) = b - sizes (take 0 (x # es))"
      using x by auto
    then show ?thesis by blast
  qed
qed

lemma evictLoop_within:
  assumes "[] \<notin> fst ` set es" and "b = sizes es"
  shows "\<not> overLimit env (fst (evictLoop env es b)) (snd (evictLoop env es b))"
  using assms
proof (induction es arbitrary: b)
  case Nil
  then show ?case
    using max_bytes_pos [of env] by (simp add: overLimit_def STREAM_CACHE_MAX_ENTRIES_def)
next
  case (Cons x es)
  obtain k e where x: "x = (k, e)" by (cases x)
  from Cons.prems x have k: "k \<noteq> []" by auto
  from Cons.prems have es: "[] \<notin> fst ` set es" by auto
  show ?case
  proof (cases "overLimit env ((k, e) # es) b")
    case True
    have "b - e_size e = sizes es" using Cons.prems x by simp
    from Cons.IH [OF es this] show ?thesis using True k x by simp
  next
    case False
    then show ?thesis using x by simp
  qed
qed

lemma evictLoop_inv:
  assumes "distinct (map fst es)" and "[] \<notin> fst ` set es" and "b = sizes es"
  shows "distinct (map fst (fst (evictLoop env es b)))"
    and "[] \<notin> fst ` set (fst (evictLoop env es b))"
    and "snd (evictLoop env es b) = sizes (fst (evictLoop env es b))"
proof -
  from evictLoop_drop [of es env b] obtain n where
    n: "n \<le> length es" "fst (evictLoop env es b) = drop n es"
       "snd (evictLoop env es b) = b - sizes (take n es)"
    by blast
  show "distinct (map fst (fst (evictLoop env es b)))"
    using assms(1) n(2) by (simp add: distinct_drop drop_map [symmetric])
  show "[] \<notin> fst ` set (fst (evictLoop env es b))"
    using assms(2) n(2) by (auto dest: in_set_dropD)
  have "sizes es = sizes (take n es) + sizes (drop n es)"
    using sizes_simps(3) [of "take n es" "drop n es"] by simp
  then show "snd (evictLoop env es b) = sizes (fst (evictLoop env es b))"
    using assms(3) n by simp
qed

lemma sizes_nonneg: "list_all (\<lambda>(k, e). e_size e > 0) es \<Longrightarrow> sizes es \<ge> 0"
  by (induction es) auto

lemma sizes_mapDelete:
  assumes "distinct (map fst es)" and "map_of es key = Some e"
  shows "sizes (mapDelete key es) = sizes es - e_size e"
  using assms
proof (induction es)
  case Nil
  then show ?case by simp
next
  case (Cons x es)
  obtain k e' where x: "x = (k, e')" by (cases x)
  show ?case
  proof (cases "k = key")
    case True
    with Cons.prems x have "e' = e" and "key \<notin> fst ` set es" by auto
    then have "mapDelete key es = es"
      by (force simp: mapDelete_def filter_id_conv)
    with True x \<open>e' = e\<close> show ?thesis by (simp add: mapDelete_def)
  next
    case False
    with Cons x show ?thesis by (simp add: mapDelete_def)
  qed
qed

lemma cacheInv_filter:
  assumes "cacheInv s"
  shows "cacheInv \<lparr>streamResponseCache = filter P (streamResponseCache s),
                   streamCacheBytes = sizes (filter P (streamResponseCache s))\<rparr>"
  using assms by (auto simp: cacheInv_def distinct_map_filter list_all_iff)

lemma removeExpired_inv: "cacheInv s \<Longrightarrow> cacheInv (removeExpired now s)"
proof -
  assume a: "cacheInv s"
  have "streamCacheBytes s - sizes (filter (\<lambda>(k, e). expired now e) (streamResponseCache s))
      = sizes (filter (\<lambda>(k, e). \<not> expired now e) (streamResponseCache s))"
    using a sizes_partition [of "\<lambda>k e. expired now e" "streamResponseCache s"]
    by (simp add: cacheInv_def)
  then show ?thesis
    using cacheInv_filter [OF a, of "\<lambda>(k, e). \<not> expired now e"]
    by (simp add: removeExpired_def)
qed

lemma evictLoop_state_inv:
  assumes "cacheInv s"
  shows "cacheInv \<lparr>streamResponseCache = fst (evictLoop env (streamResponseCache s) (streamCacheBytes s)),
                   streamCacheBytes = snd (evictLoop env (streamResponseCache s) (streamCacheBytes s))\<rparr>"
proof -
  let ?es = "streamResponseCache s" and ?b = "streamCacheBytes s"
  from assms have d: "distinct (map fst ?es)" and e: "[] \<notin> fst ` set ?es" and b: "?b = sizes ?es"
    and p: "list_all (\<lambda>(k, e). e_size e > 0) ?es"
    by (simp_all add: cacheInv_def)
  from evictLoop_drop [of ?es env ?b] obtain n where
    n: "fst (evictLoop env ?es ?b) = drop n ?es" by blast
  have "list_all (\<lambda>(k, e). e_size e > 0) (drop n ?es)"
    using p by (auto simp: list_all_iff dest: in_set_dropD)
  then show ?thesis
    using evictLoop_inv [OF d e b, of env] n by (simp add: cacheInv_def)
qed

lemma evictLoop_state_within:
  assumes "cacheInv s"
  shows "withinLimits env \<lparr>streamResponseCache = fst (evictLoop env (streamResponseCache s) (streamCacheBytes s)),
                   streamCacheBytes = snd (evictLoop env (streamResponseCache s) (streamCacheBytes s))\<rparr>"
proof -
  from assms have e: "[] \<notin> fst ` set (streamResponseCache s)"
    and b: "streamCacheBytes s = sizes (streamResponseCache s)"
    by (simp_all add: cacheInv_def)
  have "\<not> overLimit env (fst (evictLoop env (streamResponseCache s) (streamCacheBytes s)))
      (snd (evictLoop env (streamResponseCache s) (streamCacheBytes s)))"
    by (rule evictLoop_within [OF e b])
  then show ?thesis
    using max_bytes_pos [of env]
    by (auto simp: overLimit_def withinLimits_def STREAM_CACHE_MAX_ENTRIES_def)
qed

lemma cleanup_unfold:
  "streamResponseCache s \<noteq> [] \<Longrightarrow>
   cleanupStreamCache env now s =
     (let s1 = (if STREAM_CACHE_TTL_MS env > 0 then removeExpired now s else s)
      in \<lparr>streamResponseCache = fst (evictLoop env (streamResponseCache s1) (streamCacheBytes s1)),
          streamCacheBytes = snd (evictLoop env (streamResponseCache s1) (streamCacheBytes s1))\<rparr>)"
  by (simp add: cleanupStreamCache_def Let_def split: prod.split)

lemma cleanup_inv: "cacheInv s \<Longrightarrow> cacheInv (cleanupStreamCache env now s)"
proof (cases "streamResponseCache s = []")
  case True
  assume "cacheInv s"
  with True show ?thesis by (simp add: cleanupStreamCache_def)
next
  case False
  assume a: "cacheInv s"
  show ?thesis
    using evictLoop_state_inv [OF removeExpired_inv [OF a]] evictLoop_state_inv [OF a]
    by (simp add: cleanup_unfold [OF False] Let_def)
qed

lemma cleanup_within:
  assumes "cacheInv s"
  shows "withinLimits env (cleanupStreamCache env now s)"
proof (cases "streamResponseCache s = []")
  case True
  with assms show ?thesis
    using max_bytes_pos [of env]
    by (simp add: cleanupStreamCache_def withinLimits_def cacheInv_def
        STREAM_CACHE_MAX_ENTRIES_def)
next
  case False
  show ?thesis
    using evictLoop_state_within [OF removeExpired_inv [OF assms]]
      evictLoop_state_within [OF assms]
    by (simp add: cleanup_unfold [OF False] Let_def)
qed

lemma delete_inv:
  assumes "cacheInv s" and "map_of (streamResponseCache s) key = Some e"
  shows "cacheInv \<lparr>streamResponseCache = mapDelete key (streamResponseCache s),
                   streamCacheBytes = streamCacheBytes s - e_size e\<rparr>"
proof -
  from assms have d: "distinct (map fst (streamResponseCache s))" by (simp add: cacheInv_def)
  have "streamCacheBytes s - e_size e = sizes (mapDelete key (streamResponseCache s))"
    using sizes_mapDelete [OF d assms(2)] assms(1) by (simp add: cacheInv_def)
  then show ?thesis
    using cacheInv_filter [OF assms(1), of "\<lambda>(k, e). k \<noteq> key"] by (simp add: mapDelete_def)
qed

lemma delete_within:
  assumes "cacheInv s" and "withinLimits env s" and "map_of (streamResponseCache s) key = Some e"
  shows "withinLimits env \<lparr>streamResponseCache = mapDelete key (streamResponseCache s),
                   streamCacheBytes = streamCacheBytes s - e_size e\<rparr>"
proof -
  from assms(3) have "(key, e) \<in> set (streamResponseCache s)" by (rule map_of_SomeD)
  with assms(1) have "e_size e > 0" by (auto simp: cacheInv_def list_all_iff)
  moreover have "length (mapDelete key (streamResponseCache s)) \<le> length (streamResponseCache s)"
    by (simp add: mapDelete_def)
  ultimately show ?thesis using assms(2) by (simp add: withinLimits_def)
qed

lemma get_inv:
  assumes "cacheInv s"
  shows "cacheInv (snd (getStreamCacheEntry env now now' key s))"
  using assms cleanup_inv [OF assms, of env now]
    delete_inv [OF cleanup_inv [OF assms, of env now], of key]
  by (auto simp: getStreamCacheEntry_def Let_def split: option.split)

lemma get_within:
  assumes "cacheInv s" and "withinLimits env s"
  shows "withinLimits env (snd (getStreamCacheEntry env now now' key s))"
  using assms cleanup_within [OF assms(1), of env now]
    delete_within [OF cleanup_inv [OF assms(1), of env now] cleanup_within [OF assms(1), of env now],
      of key]
  by (auto simp: getStreamCacheEntry_def Let_def split: option.split)

lemma append_inv:
  assumes "cacheInv s" and "k \<notin> fst ` set (streamResponseCache s)" and "k \<noteq> []"
    and "e_size e > 0"
  shows "cacheInv \<lparr>streamResponseCache = streamResponseCache s @ [(k, e)],
                   streamCacheBytes = streamCacheBytes s + e_size e\<rparr>"
  using assms by (auto simp: cacheInv_def)

lemma mapDelete_keys: "k \<notin> fst ` set (mapDelete k es)"
  by (auto simp: mapDelete_def)

text \<open>The state of \<^verbatim>\<open>setStreamCacheEntry\<close> just before its closing cleanup.\<close>

lemma set_unfold:
  assumes "k \<noteq> []" and "0 < sz" and "sz \<le> STREAM_CACHE_MAX_BYTES env"
  shows "setStreamCacheEntry env now now' k v sz s =
     cleanupStreamCache env now'
       \<lparr>streamResponseCache =
          (case map_of (streamResponseCache s) k of
             None \<Rightarrow> streamResponseCache s | Some ex \<Rightarrow> mapDelete k (streamResponseCache s))
          @ [(k, \<lparr>e_value = v,
                  e_expiresAt = (if STREAM_CACHE_TTL_MS env > 0
                                 then Some (now + STREAM_CACHE_TTL_MS env) else None),
                  e_size = sz\<rparr>)],
        streamCacheBytes =
          (case map_of (streamResponseCache s) k of
             None \<Rightarrow> streamCacheBytes s | Some ex \<Rightarrow> streamCacheBytes s - e_size ex) + sz\<rparr>"
  using assms
  by (simp add: setStreamCacheEntry_def STREAM_CACHE_MAX_ENTRIES_def Let_def split: option.split)

lemma set_pre_inv:
  assumes "cacheInv s" and "k \<noteq> []" and "0 < sz"
  shows "cacheInv
       \<lparr>streamResponseCache =
          (case map_of (streamResponseCache s) k of
             None \<Rightarrow> streamResponseCache s | Some ex \<Rightarrow> mapDelete k (streamResponseCache s))
          @ [(k, \<lparr>e_value = v, e_expiresAt = x, e_size = sz\<rparr>)],
        streamCacheBytes =
          (case map_of (streamResponseCache s) k of
             None \<Rightarrow> streamCacheBytes s | Some ex \<Rightarrow> streamCacheBytes s - e_size ex) + sz\<rparr>"
proof (cases "map_of (streamResponseCache s) k")
  case None
  then have "k \<notin> fst ` set (streamResponseCache s)" by (simp add: map_of_eq_None_iff)
  from append_inv [OF assms(1) this assms(2), of "\<lparr>e_value = v, e_expiresAt = x, e_size = sz\<rparr>"]
  show ?thesis using None assms(3) by simp
next
  case (Some ex)
  let ?s1 = "\<lparr>streamResponseCache = mapDelete k (streamResponseCache s),
              streamCacheBytes = streamCacheBytes s - e_size ex\<rparr>"
  have i: "cacheInv ?s1" by (rule delete_inv [OF assms(1) Some])
  have n: "k \<notin> fst ` set (streamResponseCache ?s1)" using mapDelete_keys by simp
  from append_inv [OF i n assms(2), of "\<lparr>e_value = v, e_expiresAt = x, e_size = sz\<rparr>"]
  show ?thesis using Some assms(3) by simp
qed

lemma set_inv:
  assumes "cacheInv s"
  shows "cacheInv (setStreamCacheEntry env now now' k v sz s)"
proof (cases "k \<noteq> [] \<and> 0 < sz \<and> sz \<le> STREAM_CACHE_MAX_BYTES env")
  case True
  then show ?thesis
    using cleanup_inv [OF set_pre_inv [OF assms, of k sz]] by (simp add: set_unfold)
next
  case False
  then show ?thesis
    using assms max_bytes_pos [of env] by (auto simp: setStreamCacheEntry_def)
qed

lemma set_within:
  assumes "cacheInv s" and "withinLimits env s"
  shows "withinLimits env (setStreamCacheEntry env now now' k v sz s)"
proof (cases "k \<noteq> [] \<and> 0 < sz \<and> sz \<le> STREAM_CACHE_MAX_BYTES env")
  case True
  then show ?thesis
    using cleanup_within [OF set_pre_inv [OF assms(1), of k sz]] by (simp add: set_unfold)
next
  case False
  then show ?thesis
    using assms max_bytes_pos [of env] by (auto simp: setStreamCacheEntry_def)
qed

lemma applyOp_inv:
  assumes "cacheInv s" and "withinLimits env s"
  shows "cacheInv (applyOp env s op) \<and> withinLimits env (applyOp env s op)"
proof (cases op)
  case (OpSet now now' k v sz)
  then show ?thesis using set_inv [OF assms(1)] set_within [OF assms] by simp
next
  case (OpGet now now' k)
  then show ?thesis using get_inv [OF assms(1)] get_within [OF assms] by simp
next
  case (OpCleanup now)
  then show ?thesis using cleanup_inv [OF assms(1)] cleanup_within [OF assms(1)] by simp
next
  case OpClear
  then show ?thesis
    using max_bytes_pos [of env]
    by (simp add: clearStreamResponseCache_def cacheInv_def withinLimits_def
        STREAM_CACHE_MAX_ENTRIES_def)
qed

lemma foldl_applyOp_inv:
  "cacheInv s \<Longrightarrow> withinLimits env s \<Longrightarrow>
   cacheInv (foldl (applyOp env) s ops) \<and> withinLimits env (foldl (applyOp env) s ops)"
  by (induction ops arbitrary: s) (simp_all add: applyOp_inv)

lemma runCache_inv: "cacheInv (runCache env ops) \<and> withinLimits env (runCache env ops)"
proof -
  have "cacheInv (emptyCache :: 'a stream_cache)"
    by (simp add: cacheInv_def emptyCache_def)
  moreover have "withinLimits env (emptyCache :: 'a stream_cache)"
    using max_bytes_pos [of env]
    by (simp add: withinLimits_def emptyCache_def STREAM_CACHE_MAX_ENTRIES_def)
  ultimately show ?thesis unfolding runCache_def by (rule foldl_applyOp_inv)
qed

text \<open>The newest entry is the last one the eviction loop would reach, and the loop stops
  before it when the entry alone fits the byte cap.\<close>

lemma evictLoop_keeps_last:
  assumes "[] \<notin> fst ` set (ys @ [(k, e)])" and "b = sizes (ys @ [(k, e)])"
    and "e_size e \<le> STREAM_CACHE_MAX_BYTES env"
  shows "\<exists>n. n \<le> length ys \<and> fst (evictLoop env (ys @ [(k, e)]) b) = drop n ys @ [(k, e)]"
  using assms(1,2)
proof (induction ys arbitrary: b)
  case Nil
  have "\<not> overLimit env [(k, e)] (e_size e)"
    using assms(3) by (simp add: overLimit_def STREAM_CACHE_MAX_ENTRIES_def)
  with Nil show ?case by simp
next
  case (Cons y ys)
  obtain k' e' where y: "y = (k', e')" by (cases y)
  from Cons.prems y have k': "k' \<noteq> []" by auto
  from Cons.prems have es: "[] \<notin> fst ` set (ys @ [(k, e)])" by auto
  show ?case
  proof (cases "overLimit env ((k', e') # ys @ [(k, e)]) b")
    case True
    have "b - e_size e' = sizes (ys @ [(k, e)])" using Cons.prems y by simp
    from Cons.IH [OF es this] obtain n where
      "n \<le> length ys" "fst (evictLoop env (ys @ [(k, e)]) (b - e_size e')) = drop n ys @ [(k, e)]"
      by blast
    then have "Suc n \<le> length (y # ys)
        \<and> fst (evictLoop env ((y # ys) @ [(k, e)]) b) = drop (Suc n) (y # ys) @ [(k, e)]"
      using True k' y by simp
    then show ?thesis by blast
  next
    case False
    then have "0 \<le> length (y # ys)
        \<and> fst (evictLoop env ((y # ys) @ [(k, e)]) b) = drop 0 (y # ys) @ [(k, e)]"
      using y by simp
    then show ?thesis by blast
  qed
qed

lemma cleanup_keeps_last:
  assumes "cacheInv s" and "streamResponseCache s = ys @ [(k, e)]"
    and "e_size e \<le> STREAM_CACHE_MAX_BYTES env" and "\<not> expired now e"
  shows "streamResponseCache (cleanupStreamCache env now s) \<noteq> []
         \<and> last (streamResponseCache (cleanupStreamCache env now s)) = (k, e)"
proof -
  let ?s1 = "if STREAM_CACHE_TTL_MS env > 0 then removeExpired now s else s"
  have ne: "streamResponseCache s \<noteq> []" using assms(2) by simp
  have i1: "cacheInv ?s1" using assms(1) removeExpired_inv [OF assms(1), of now] by simp
  have "streamResponseCache (removeExpired now s)
      = filter (\<lambda>(k, e). \<not> expired now e) ys @ [(k, e)]"
    using assms(2,4) by (simp add: removeExpired_def)
  then have "\<exists>zs. streamResponseCache ?s1 = zs @ [(k, e)]"
    using assms(2) by (cases "STREAM_CACHE_TTL_MS env > 0") simp_all
  then obtain zs where zs: "streamResponseCache ?s1 = zs @ [(k, e)]" ..
  from i1 zs have a: "[] \<notin> fst ` set (zs @ [(k, e)])"
    and b: "streamCacheBytes ?s1 = sizes (zs @ [(k, e)])"
    by (simp_all add: cacheInv_def)
  from evictLoop_keeps_last [OF a b assms(3)] obtain n where
    "fst (evictLoop env (zs @ [(k, e)]) (streamCacheBytes ?s1)) = drop n zs @ [(k, e)]"
    by blast
  then have "streamResponseCache (cleanupStreamCache env now s) = drop n zs @ [(k, e)]"
    using zs by (simp add: cleanup_unfold [OF ne] Let_def)
  then show ?thesis by simp
qed

lemma set_keeps_new:
  assumes "cacheInv s" and "k \<noteq> []" and "0 < sz" and "sz \<le> STREAM_CACHE_MAX_BYTES env"
    and "now' < now + STREAM_CACHE_TTL_MS env \<or> STREAM_CACHE_TTL_MS env = 0"
  shows "streamResponseCache (setStreamCacheEntry env now now' k v sz s) \<noteq> []
         \<and> last (streamResponseCache (setStreamCacheEntry env now now' k v sz s))
             = (k, \<lparr>e_value = v,
                    e_expiresAt = (if STREAM_CACHE_TTL_MS env > 0
                                   then Some (now + STREAM_CACHE_TTL_MS env) else None),
                    e_size = sz\<rparr>)"
proof -
  let ?e = "\<lparr>e_value = v,
             e_expiresAt = (if STREAM_CACHE_TTL_MS env > 0
                            then Some (now + STREAM_CACHE_TTL_MS env) else None),
             e_size = sz\<rparr>"
  have x: "\<not> expired now' ?e" using assms(5) by (auto simp: expired_def)
  have z: "e_size ?e \<le> STREAM_CACHE_MAX_BYTES env" using assms(4) by simp
  show ?thesis
    unfolding set_unfold [OF assms(2,3,4)]
    by (rule cleanup_keeps_last [OF set_pre_inv [OF assms(1,2,3)] _ z x]) simp
qed

lemma cleanup_fifo:
  "\<exists>n. streamResponseCache (cleanupStreamCache env now s)
        = drop n (streamResponseCache
                    (if STREAM_CACHE_TTL_MS env > 0 then removeExpired now s else s))"
proof (cases "streamResponseCache s = []")
  case True
  then have "streamResponseCache (cleanupStreamCache env now s)
        = drop 0 (streamResponseCache
                    (if STREAM_CACHE_TTL_MS env > 0 then removeExpired now s else s))"
    by (simp add: cleanupStreamCache_def removeExpired_def)
  then show ?thesis by blast
next
  case False
  let ?s1 = "if STREAM_CACHE_TTL_MS env > 0 then removeExpired now s else s"
  from evictLoop_drop [of "streamResponseCache ?s1" env "streamCacheBytes ?s1"] obtain n where
    "fst (evictLoop env (streamResponseCache ?s1) (streamCacheBytes ?s1))
       = drop n (streamResponseCache ?s1)"
    by blast
  then have "streamResponseCache (cleanupStreamCache env now s) = drop n (streamResponseCache ?s1)"
    by (simp add: cleanup_unfold [OF False] Let_def)
  then show ?thesis by blast
qed

lemma cleanup_subset:
  "set (streamResponseCache (cleanupStreamCache env now s)) \<subseteq> set (streamResponseCache s)"
proof -
  from cleanup_fifo [of env now s] obtain n where
    n: "streamResponseCache (cleanupStreamCache env now s)
        = drop n (streamResponseCache
                    (if STREAM_CACHE_TTL_MS env > 0 then removeExpired now s else s))"
    by blast
  have "set (streamResponseCache
               (if STREAM_CACHE_TTL_MS env > 0 then removeExpired now s else s))
        \<subseteq> set (streamResponseCache s)"
    by (auto simp: removeExpired_def)
  then show ?thesis unfolding n using set_drop_subset by fastforce
qed

lemma cleanup_drops_expired:
  assumes "STREAM_CACHE_TTL_MS env > 0"
    and "(k, e) \<in> set (streamResponseCache (cleanupStreamCache env now s))"
  shows "\<not> expired now e"
proof -
  from cleanup_fifo [of env now s] assms(1) obtain n where
    "streamResponseCache (cleanupStreamCache env now s)
        = drop n (streamResponseCache (removeExpired now s))"
    by auto
  with assms(2) have "(k, e) \<in> set (streamResponseCache (removeExpired now s))"
    by (auto dest: in_set_dropD)
  then show ?thesis by (auto simp: removeExpired_def)
qed

lemma expired_mono: "expired now e \<Longrightarrow> now \<le> now' \<Longrightarrow> expired now' e"
  by (auto simp: expired_def split: option.splits)

lemma get_miss_expired:
  assumes "cacheInv s" and "map_of (streamResponseCache s) k = Some e" and "expired now e"
    and "now \<le> now'"
  shows "fst (getStreamCacheEntry env now now' k s) = None"
proof (cases "map_of (streamResponseCache (cleanupStreamCache env now s)) k")
  case None
  then show ?thesis by (simp add: getStreamCacheEntry_def Let_def)
next
  case (Some e')
  then have "(k, e') \<in> set (streamResponseCache (cleanupStreamCache env now s))"
    by (rule map_of_SomeD)
  then have "(k, e') \<in> set (streamResponseCache s)" using cleanup_subset by blast
  moreover from assms(1) have "distinct (map fst (streamResponseCache s))"
    by (simp add: cacheInv_def)
  ultimately have "map_of (streamResponseCache s) k = Some e'" by simp
  with assms(2) have "e' = e" by simp
  with assms(3,4) have "expired now' e'" using expired_mono by blast
  with Some show ?thesis by (simp add: getStreamCacheEntry_def Let_def)
qed

lemma get_hit_fresh:
  "fst (getStreamCacheEntry env now now' k s) = Some e \<Longrightarrow> \<not> expired now' e"
  by (auto simp: getStreamCacheEntry_def Let_def split: if_splits option.splits)

lemma set_rejects_oversize:
  "sz > STREAM_CACHE_MAX_BYTES env \<Longrightarrow> setStreamCacheEntry env now now' k v sz s = s"
  using max_bytes_pos [of env] by (simp add: setStreamCacheEntry_def)

text \<open>
  Claim C6: for the response cache in any state reached from the empty cache by insertions,
  lookups, cleanups and flushes: a lookup of an entry past its expiry instant is a miss
  (and a hit is never expired); an insertion whose estimated size exceeds the byte cap
  leaves the cache unchanged; the limit enforcement removes a prefix of the insertion-ordered
  entry list (oldest first); the byte counter is the sum of the stored sizes and never
  exceeds the cap (so not by more than one entry either), with at most 1000 entries; and
  an accepted insertion (size within the cap, read before its own expiry) leaves the new
  entry in the cache as its newest entry.
\<close>

theorem streamCache_contract:
  "(now \<le> now' \<and> map_of (streamResponseCache (runCache env ops)) k = Some e \<and> expired now e \<longrightarrow>
      fst (getStreamCacheEntry env now now' k (runCache env ops)) = None)
   \<and> (fst (getStreamCacheEntry env now now' k (runCache env ops)) = Some e' \<longrightarrow>
        \<not> expired now' e')
   \<and> (sz > STREAM_CACHE_MAX_BYTES env \<longrightarrow>
        setStreamCacheEntry env now now' k v sz (runCache env ops) = runCache env ops)
   \<and> (\<exists>n. streamResponseCache (cleanupStreamCache env now (runCache env ops))
          = drop n (streamResponseCache
                      (if STREAM_CACHE_TTL_MS env > 0 then removeExpired now (runCache env ops)
                       else runCache env ops)))
   \<and> streamCacheBytes (runCache env ops) = sizes (streamResponseCache (runCache env ops))
   \<and> streamCacheBytes (runCache env ops) \<le> STREAM_CACHE_MAX_BYTES env
   \<and> int (length (streamResponseCache (runCache env ops))) \<le> STREAM_CACHE_MAX_ENTRIES
   \<and> (k \<noteq> [] \<and> 0 < sz \<and> sz \<le> STREAM_CACHE_MAX_BYTES env
        \<and> (now' < now + STREAM_CACHE_TTL_MS env \<or> STREAM_CACHE_TTL_MS env = 0) \<longrightarrow>
        streamResponseCache (setStreamCacheEntry env now now' k v sz (runCache env ops)) \<noteq> []
        \<and> last (streamResponseCache (setStreamCacheEntry env now now' k v sz (runCache env ops)))
            = (k, \<lparr>e_value = v,
                   e_expiresAt = (if STREAM_CACHE_TTL_MS env > 0
                                  then Some (now + STREAM_CACHE_TTL_MS env) else None),
                   e_size = sz\<rparr>))"
proof -
  have i: "cacheInv (runCache env ops)" and w: "withinLimits env (runCache env ops)"
    using runCache_inv [of env ops] by simp_all
  show ?thesis
    using get_miss_expired [OF i, of k e now now' env]
      get_hit_fresh [of env now now' k "runCache env ops" e']
      set_rejects_oversize [of env sz now now' k v "runCache env ops"]
      cleanup_fifo [of env now "runCache env ops"]
      set_keeps_new [OF i, of k sz env now' now v] i w
    unfolding cacheInv_def withinLimits_def by blast
qed

theorem streamCache_contract_witness:
  "(70000 :: int) \<le> 70000
   \<and> map_of (streamResponseCache (runCache exampleEnv exampleOps)) ''b'' = Some exampleEntry
   \<and> expired 70000 exampleEntry
   \<and> fst (getStreamCacheEntry exampleEnv 70000 70000 ''b'' (runCache exampleEnv exampleOps)) = None
   \<and> fst (getStreamCacheEntry exampleEnv 20 20 ''b'' (runCache exampleEnv exampleOps))
       = Some exampleEntry
   \<and> \<not> expired 20 exampleEntry
   \<and> 2000000 > STREAM_CACHE_MAX_BYTES exampleEnv
   \<and> setStreamCacheEntry exampleEnv 20 20 ''c'' 9 2000000 (runCache exampleEnv exampleOps)
       = runCache exampleEnv exampleOps
   \<and> streamResponseCache (runCache exampleEnv exampleOps) = [(''b'', exampleEntry)]
   \<and> streamCacheBytes (runCache exampleEnv exampleOps) = 600000
   \<and> streamCacheBytes (runCache exampleEnv exampleOps) \<le> STREAM_CACHE_MAX_BYTES exampleEnv
   \<and> ''c'' \<noteq> [] \<and> (0 :: int) < 600000 \<and> 600000 \<le> STREAM_CACHE_MAX_BYTES exampleEnv
   \<and> (20 :: int) < 20 + STREAM_CACHE_TTL_MS exampleEnv
   \<and> last (streamResponseCache
        (setStreamCacheEntry exampleEnv 20 20 ''c'' 9 600000 (runCache exampleEnv exampleOps)))
       = (''c'', \<lparr>e_value = 9, e_expiresAt = Some 60020, e_size = 600000\<rparr>)"
proof -
  have h1: "(70000 :: int) \<le> 70000" by simp
  have h2: "map_of (streamResponseCache (runCache exampleEnv exampleOps)) ''b'' = Some exampleEntry"
    by code_simp
  have h3: "expired 70000 exampleEntry" by code_simp
  have h4: "fst (getStreamCacheEntry exampleEnv 20 20 ''b'' (runCache exampleEnv exampleOps))
       = Some exampleEntry"
    by code_simp
  have h5: "2000000 > STREAM_CACHE_MAX_BYTES exampleEnv" by code_simp
  have h6: "''c'' \<noteq> []" "(0 :: int) < 600000" "600000 \<le> STREAM_CACHE_MAX_BYTES exampleEnv"
    "(20 :: int) < 20 + STREAM_CACHE_TTL_MS exampleEnv"
    by code_simp+
  have h7: "streamResponseCache (runCache exampleEnv exampleOps) = [(''b'', exampleEntry)]"
    "streamCacheBytes (runCache exampleEnv exampleOps) = 600000"
    by code_simp+
  have t: "STREAM_CACHE_TTL_MS exampleEnv = 60000"
    by (simp add: STREAM_CACHE_TTL_MS_def exampleEnv_def)
  note c1 = streamCache_contract [of 70000 70000 exampleEnv exampleOps "''b''" exampleEntry
      exampleEntry 2000000 9]
  note c2 = streamCache_contract [of 20 20 exampleEnv exampleOps "''b''" exampleEntry
      exampleEntry 2000000 9]
  note c3 = streamCache_contract [of 20 20 exampleEnv exampleOps "''c''" exampleEntry
      exampleEntry 600000 9]
  have r1: "fst (getStreamCacheEntry exampleEnv 70000 70000 ''b'' (runCache exampleEnv exampleOps))
       = None"
    using c1 h1 h2 h3 by blast
  have r2: "\<not> expired 20 exampleEntry" using c2 h4 by blast
  note c4 = streamCache_contract [of 20 20 exampleEnv exampleOps "''c''" exampleEntry
      exampleEntry 2000000 9]
  have r3: "setStreamCacheEntry exampleEnv 20 20 ''c'' 9 2000000 (runCache exampleEnv exampleOps)
       = runCache exampleEnv exampleOps"
    using c4 h5 by blast
  have r4: "streamCacheBytes (runCache exampleEnv exampleOps) \<le> STREAM_CACHE_MAX_BYTES exampleEnv"
    using c1 by blast
  have r5: "last (streamResponseCache
        (setStreamCacheEntry exampleEnv 20 20 ''c'' 9 600000 (runCache exampleEnv exampleOps)))
       = (''c'', \<lparr>e_value = 9, e_expiresAt = Some 60020, e_size = 600000\<rparr>)"
    using c3 h6 by (simp add: t)
  show ?thesis using h1 h2 h3 h4 h5 h6 h7 r1 r2 r3 r4 r5 by blast
qed


section \<open>Results: single-flight mount handles\<close>

lemma cleanup_pending:
  "cache k = Some (Pending p) \<Longrightarrow> cleanupNzbdavCache ttl now cache k = Some (Pending p)"
  by (simp add: cleanupNzbdavCache_def mountExpired_def entryExpiresAt_def)

lemma call_on_pending:
  assumes "nzbdavStreamCache s k = Some (Pending p)"
  shows "fst (getOrCreateNzbdavStream ttl now k s) = Awaits p"
    and "nzbdavStreamCache (snd (getOrCreateNzbdavStream ttl now k s)) k = Some (Pending p)"
    and "builderCalls (snd (getOrCreateNzbdavStream ttl now k s)) = builderCalls s"
  using assms cleanup_pending [of "nzbdavStreamCache s" k p ttl now]
  by (simp_all add: getOrCreateNzbdavStream_def Let_def)

lemma concurrent_on_pending:
  assumes "nzbdavStreamCache s k = Some (Pending p)"
  shows "fst (concurrentCalls ttl ts k s) = replicate (length ts) (Awaits p)
       \<and> builderCalls (snd (concurrentCalls ttl ts k s)) = builderCalls s
       \<and> nzbdavStreamCache (snd (concurrentCalls ttl ts k s)) k = Some (Pending p)"
  using assms
proof (induction ts arbitrary: s)
  case Nil
  then show ?case by simp
next
  case (Cons now ts)
  let ?s1 = "snd (getOrCreateNzbdavStream ttl now k s)"
  note c = call_on_pending [OF Cons.prems, of ttl now]
  from Cons.IH [OF c(2)] c show ?case
    by (simp add: Let_def split: prod.split) (metis fst_conv snd_conv)
qed

lemma call_on_absent:
  assumes "cleanupNzbdavCache ttl now (nzbdavStreamCache s) k = None"
  shows "fst (getOrCreateNzbdavStream ttl now k s) = Awaits (nextPromise s)"
    and "nzbdavStreamCache (snd (getOrCreateNzbdavStream ttl now k s)) k
         = Some (Pending (nextPromise s))"
    and "builderCalls (snd (getOrCreateNzbdavStream ttl now k s))
         = builderCalls s @ [(k, nextPromise s)]"
  using assms by (simp_all add: getOrCreateNzbdavStream_def Let_def)

lemma single_flight:
  assumes "cleanupNzbdavCache ttl now (nzbdavStreamCache s) k = None"
  shows "fst (concurrentCalls ttl (now # ts) k s)
           = replicate (Suc (length ts)) (Awaits (nextPromise s))
       \<and> builderCalls (snd (concurrentCalls ttl (now # ts) k s))
           = builderCalls s @ [(k, nextPromise s)]"
proof -
  note a = call_on_absent [OF assms]
  from concurrent_on_pending [OF a(2), of ttl ts] a show ?thesis
    by (simp add: Let_def split: prod.split) (metis fst_conv snd_conv)
qed

lemma failed_pinned:
  assumes "isNzbdavFailure err" and "ttl \<le> 0 \<or> now' < now + ttl"
  shows "fst (getOrCreateNzbdavStream ttl now' k (builderRejected ttl now k err s)) = Throws err"
    and "builderCalls (snd (getOrCreateNzbdavStream ttl now' k (builderRejected ttl now k err s)))
         = builderCalls s"
  using assms
  by (auto simp: getOrCreateNzbdavStream_def builderRejected_def cleanupNzbdavCache_def
      mountExpired_def entryExpiresAt_def expiryStamp_def Let_def)

lemma transient_retry:
  assumes "\<not> isNzbdavFailure err"
  shows "nzbdavStreamCache (builderRejected ttl now k err s) k = None"
    and "fst (getOrCreateNzbdavStream ttl now' k (builderRejected ttl now k err s))
         = Awaits (nextPromise s)"
    and "builderCalls (snd (getOrCreateNzbdavStream ttl now' k (builderRejected ttl now k err s)))
         = builderCalls s @ [(k, nextPromise s)]"
  using assms
  by (auto simp: getOrCreateNzbdavStream_def builderRejected_def cleanupNzbdavCache_def Let_def)

lemma ready_served:
  assumes "ttl \<le> 0 \<or> now' < now + ttl"
  shows "nzbdavStreamCache (builderResolved ttl now k d s) k = Some (Ready d (expiryStamp ttl now))"
    and "fst (getOrCreateNzbdavStream ttl now' k (builderResolved ttl now k d s)) = ReturnsData d"
    and "builderCalls (snd (getOrCreateNzbdavStream ttl now' k (builderResolved ttl now k d s)))
         = builderCalls s"
  using assms
  by (auto simp: getOrCreateNzbdavStream_def builderResolved_def cleanupNzbdavCache_def
      mountExpired_def entryExpiresAt_def expiryStamp_def Let_def)

lemma rejected_entry:
  "isNzbdavFailure err \<Longrightarrow>
   nzbdavStreamCache (builderRejected ttl now k err s) k = Some (Failed err (expiryStamp ttl now))"
  by (simp add: builderRejected_def)

text \<open>
  Claim C7: when no live entry exists for a key, any number of calls for that key made
  before the builder settles invoke the builder exactly once, and every one of them awaits
  the same promise.  When the builder succeeds the entry becomes \<open>ready\<close>; when it fails
  without the deterministic-failure mark the entry is deleted and the next call invokes the
  builder again; when it fails with the mark the entry is pinned as \<open>failed\<close>, and until the
  TTL has passed (for ever when the TTL is 0) callers get the stored error and the builder is
  not invoked.
\<close>

theorem mount_single_flight:
  assumes "cleanupNzbdavCache ttl now (nzbdavStreamCache s) k = None"
  shows
    "(let s1 = snd (concurrentCalls ttl (now # ts) k s) in
      fst (concurrentCalls ttl (now # ts) k s)
        = replicate (Suc (length ts)) (Awaits (nextPromise s))
      \<and> builderCalls s1 = builderCalls s @ [(k, nextPromise s)]
      \<and> nzbdavStreamCache (builderResolved ttl t k d s1) k
          = Some (Ready d (expiryStamp ttl t))
      \<and> (\<not> isNzbdavFailure err \<longrightarrow>
            nzbdavStreamCache (builderRejected ttl t k err s1) k = None
          \<and> fst (getOrCreateNzbdavStream ttl t' k (builderRejected ttl t k err s1))
              = Awaits (nextPromise s1)
          \<and> builderCalls (snd (getOrCreateNzbdavStream ttl t' k (builderRejected ttl t k err s1)))
              = builderCalls s1 @ [(k, nextPromise s1)])
      \<and> (isNzbdavFailure err \<longrightarrow>
            nzbdavStreamCache (builderRejected ttl t k err s1) k
              = Some (Failed err (expiryStamp ttl t))
          \<and> (ttl \<le> 0 \<or> t' < t + ttl \<longrightarrow>
                fst (getOrCreateNzbdavStream ttl t' k (builderRejected ttl t k err s1))
                  = Throws err
              \<and> builderCalls
                   (snd (getOrCreateNzbdavStream ttl t' k (builderRejected ttl t k err s1)))
                  = builderCalls s1)))"
proof -
  let ?s1 = "snd (concurrentCalls ttl (now # ts) k s)"
  note a = single_flight [OF assms, of ts]
  have b: "nzbdavStreamCache (builderResolved ttl t k d ?s1) k
          = Some (Ready d (expiryStamp ttl t))"
    by (simp add: builderResolved_def)
  note c = transient_retry(1) [where err = err and ttl = ttl and now = t and k = k and s = ?s1]
    transient_retry(2,3) [where err = err and ttl = ttl and now = t and k = k and s = ?s1
      and now' = t']
  note d = rejected_entry [where err = err and ttl = ttl and now = t and k = k and s = ?s1]
  note e = failed_pinned [where err = err and ttl = ttl and now = t and k = k and s = ?s1
      and now' = t']
  show ?thesis unfolding Let_def using a b c d e by blast
qed

theorem mount_single_flight_witness:
  "cleanupNzbdavCache 60000 0 (nzbdavStreamCache (emptyMountCache :: nat mount_cache)) ''u::Movies''
     = None
   \<and> fst (concurrentCalls 60000 [0, 1, 2] ''u::Movies'' (emptyMountCache :: nat mount_cache))
       = [Awaits 0, Awaits 0, Awaits 0]
   \<and> builderCalls (snd (concurrentCalls 60000 [0, 1, 2] ''u::Movies''
        (emptyMountCache :: nat mount_cache))) = [(''u::Movies'', 0)]
   \<and> nzbdavStreamCache (builderResolved 60000 5 ''u::Movies'' 42
        (snd (concurrentCalls 60000 [0, 1, 2] ''u::Movies''
           (emptyMountCache :: nat mount_cache)))) ''u::Movies''
       = Some (Ready 42 (Some 60005))
   \<and> \<not> isNzbdavFailure \<lparr>isNzbdavFailure = False, errMessage = ''socket hang up''\<rparr>
   \<and> builderCalls (snd (getOrCreateNzbdavStream 60000 9 ''u::Movies''
        (builderRejected 60000 5 ''u::Movies''
           \<lparr>isNzbdavFailure = False, errMessage = ''socket hang up''\<rparr>
           (snd (concurrentCalls 60000 [0, 1, 2] ''u::Movies''
              (emptyMountCache :: nat mount_cache))))))
       = [(''u::Movies'', 0), (''u::Movies'', 1)]
   \<and> isNzbdavFailure \<lparr>isNzbdavFailure = True, errMessage = ''job failed''\<rparr>
   \<and> ((60000 :: int) \<le> 0 \<or> (9 :: int) < 5 + 60000)
   \<and> fst (getOrCreateNzbdavStream 60000 9 ''u::Movies''
        (builderRejected 60000 5 ''u::Movies''
           \<lparr>isNzbdavFailure = True, errMessage = ''job failed''\<rparr>
           (snd (concurrentCalls 60000 [0, 1, 2] ''u::Movies''
              (emptyMountCache :: nat mount_cache)))))
       = Throws \<lparr>isNzbdavFailure = True, errMessage = ''job failed''\<rparr>
   \<and> builderCalls (snd (getOrCreateNzbdavStream 60000 9 ''u::Movies''
        (builderRejected 60000 5 ''u::Movies''
           \<lparr>isNzbdavFailure = True, errMessage = ''job failed''\<rparr>
           (snd (concurrentCalls 60000 [0, 1, 2] ''u::Movies''
              (emptyMountCache :: nat mount_cache))))))
       = [(''u::Movies'', 0)]"
proof -
  let ?e = "emptyMountCache :: nat mount_cache"
  let ?k = "''u::Movies''"
  have h: "cleanupNzbdavCache 60000 0 (nzbdavStreamCache ?e) ?k = None"
    by (simp add: cleanupNzbdavCache_def emptyMountCache_def)
  have n: "nextPromise ?e = 0" "builderCalls ?e = []" by (simp_all add: emptyMountCache_def)
  have x: "expiryStamp 60000 5 = Some 60005" by (simp add: expiryStamp_def)
  note a = mount_single_flight [OF h, of "[1, 2]" 5 42
      "\<lparr>isNzbdavFailure = False, errMessage = ''socket hang up''\<rparr>" 9, unfolded Let_def]
  note b = mount_single_flight [OF h, of "[1, 2]" 5 42
      "\<lparr>isNzbdavFailure = True, errMessage = ''job failed''\<rparr>" 9, unfolded Let_def]
  have p: "nextPromise (snd (concurrentCalls 60000 [0, 1, 2] ?k ?e)) = 1"
    by code_simp
  let ?s1 = "snd (concurrentCalls 60000 [0, 1, 2] ?k ?e)"
  have l: "replicate (Suc (length [1, 2 :: int])) (Awaits (0 :: nat) :: nat call_result)
      = [Awaits 0, Awaits 0, Awaits 0]"
    by (simp add: numeral_2_eq_2)
  have r1: "fst (concurrentCalls 60000 [0, 1, 2] ?k ?e) = [Awaits 0, Awaits 0, Awaits 0]"
    using a unfolding n l by blast
  have r2: "builderCalls ?s1 = [(?k, 0)]" using a unfolding n by (metis append_Nil)
  have r3: "nzbdavStreamCache (builderResolved 60000 5 ?k 42 ?s1) ?k = Some (Ready 42 (Some 60005))"
    using a x by metis
  have f: "\<not> isNzbdavFailure \<lparr>isNzbdavFailure = False, errMessage = ''socket hang up''\<rparr>"
    and g: "isNzbdavFailure \<lparr>isNzbdavFailure = True, errMessage = ''job failed''\<rparr>"
    and w: "(60000 :: int) \<le> 0 \<or> (9 :: int) < 5 + 60000"
    by simp_all
  have r4: "builderCalls (snd (getOrCreateNzbdavStream 60000 9 ?k
        (builderRejected 60000 5 ?k \<lparr>isNzbdavFailure = False, errMessage = ''socket hang up''\<rparr> ?s1)))
       = builderCalls ?s1 @ [(?k, nextPromise ?s1)]"
    using a f by blast
  have r5: "fst (getOrCreateNzbdavStream 60000 9 ?k
        (builderRejected 60000 5 ?k \<lparr>isNzbdavFailure = True, errMessage = ''job failed''\<rparr> ?s1))
       = Throws \<lparr>isNzbdavFailure = True, errMessage = ''job failed''\<rparr>
     \<and> builderCalls (snd (getOrCreateNzbdavStream 60000 9 ?k
        (builderRejected 60000 5 ?k \<lparr>isNzbdavFailure = True, errMessage = ''job failed''\<rparr> ?s1)))
       = builderCalls ?s1"
    using b g w by blast
  have r4': "builderCalls (snd (getOrCreateNzbdavStream 60000 9 ?k
        (builderRejected 60000 5 ?k \<lparr>isNzbdavFailure = False, errMessage = ''socket hang up''\<rparr> ?s1)))
       = [(?k, 0), (?k, 1)]"
    unfolding r4 r2 p by simp
  have r5': "builderCalls (snd (getOrCreateNzbdavStream 60000 9 ?k
        (builderRejected 60000 5 ?k \<lparr>isNzbdavFailure = True, errMessage = ''job failed''\<rparr> ?s1)))
       = [(?k, 0)]"
    using r5 r2 by metis
  show ?thesis
    using h r1 r2 r3 r4' r5 r5' f g w by blast
qed


section \<open>Results: language-first sorting\<close>

lemma cmp_le_iff: "compareQualityThenSize a b \<le> 0 \<longleftrightarrow> qualityThenSize a b"
  by (auto simp: compareQualityThenSize_def qualityThenSize_def)

lemma qts_total: "\<not> qualityThenSize a b \<Longrightarrow> qualityThenSize b a"
  by (auto simp: qualityThenSize_def)

lemma qts_trans: "qualityThenSize a b \<Longrightarrow> qualityThenSize b c \<Longrightarrow> qualityThenSize a c"
  by (auto simp: qualityThenSize_def)

lemma set_insertBy: "set (insertBy cmp x ys) = insert x (set ys)"
  by (induction ys) auto

lemma mset_insertBy: "mset (insertBy cmp x ys) = add_mset x (mset ys)"
  by (induction ys) auto

lemma mset_jsSort: "mset (jsSort cmp xs) = mset xs"
  by (induction xs) (simp_all add: jsSort_def mset_insertBy)

lemma set_jsSort: "set (jsSort cmp xs) = set xs"
  using mset_jsSort [of cmp xs] by (metis set_mset_mset)

lemma sorted_insertBy:
  "sorted_wrt qualityThenSize ys \<Longrightarrow>
   sorted_wrt qualityThenSize (insertBy compareQualityThenSize x ys)"
proof (induction ys)
  case Nil
  show ?case by simp
next
  case (Cons y ys)
  show ?case
  proof (cases "compareQualityThenSize x y \<le> 0")
    case True
    then have xy: "qualityThenSize x y" by (simp add: cmp_le_iff)
    have "\<forall>z \<in> set ys. qualityThenSize x z"
      using Cons.prems xy qts_trans by auto
    with True xy Cons.prems show ?thesis by simp
  next
    case False
    then have yx: "qualityThenSize y x" using qts_total by (simp add: cmp_le_iff)
    from Cons have "sorted_wrt qualityThenSize (insertBy compareQualityThenSize x ys)" by simp
    with False yx Cons.prems show ?thesis by (auto simp: set_insertBy)
  qed
qed

lemma sorted_jsSort: "sorted_wrt qualityThenSize (jsSort compareQualityThenSize xs)"
  by (induction xs) (simp_all add: jsSort_def sorted_insertBy)

lemma find_Some_ex: "(\<exists>y. find P xs = Some y) = (\<exists>x \<in> set xs. P x)"
  by (induction xs) auto

lemma matches_iff_intersect:
  "resultMatchesPreferredLanguage r p \<longleftrightarrow> languageKeys r \<inter> preferenceKeys p \<noteq> {}"
proof -
  let ?prefs = "map toLowerCase (normalizePreferredLanguageList p)"
  let ?rl = "gatherResultLanguages r"
  have "resultMatchesPreferredLanguage r p
        \<longleftrightarrow> (\<exists>pref \<in> set ?prefs. find (\<lambda>l. toLowerCase l = pref) ?rl \<noteq> None)"
    by (auto simp: resultMatchesPreferredLanguage_def getPreferredLanguageMatches_def Let_def
        split: option.splits)
  also have "\<dots> \<longleftrightarrow> (\<exists>pref \<in> set ?prefs. \<exists>l \<in> set ?rl. toLowerCase l = pref)"
    by (simp add: find_Some_ex)
  also have "\<dots> \<longleftrightarrow> languageKeys r \<inter> preferenceKeys p \<noteq> {}"
    by (auto simp: languageKeys_def preferenceKeys_def)
  finally show ?thesis .
qed

lemma trim_idem: "trim (trim s) = trim s"
proof -
  let ?a = "dropWhile isJsSpace s"
  let ?b = "dropWhile isJsSpace (rev ?a)"
  have t: "trim s = rev ?b" by (simp add: trim_def)
  have "dropWhile isJsSpace (rev ?b) = rev ?b"
  proof (cases "?b = []")
    case True
    then have "rev ?b = []" by (simp only: rev.simps)
    then show ?thesis by (simp only: dropWhile.simps)
  next
    case False
    have "rev ?a = takeWhile isJsSpace (rev ?a) @ ?b" by simp
    then have "?a = rev ?b @ rev (takeWhile isJsSpace (rev ?a))"
      by (metis rev_append rev_rev_ident)
    then have h: "hd ?a = hd (rev ?b)" using False by (metis hd_append2 rev_is_Nil_conv)
    have "?a \<noteq> []"
    proof
      assume e: "?a = []"
      have "?b = []" unfolding e by simp
      with False show False by simp
    qed
    then have "\<not> isJsSpace (hd ?a)" by (rule hd_dropWhile)
    with h have "\<not> isJsSpace (hd (rev ?b))" by simp
    then show ?thesis using False by (cases "rev ?b") simp_all
  qed
  then have "trim (rev ?b) = rev (dropWhile isJsSpace ?b)" by (simp add: trim_def)
  also have "\<dots> = rev ?b" by simp
  finally show ?thesis using t by simp
qed

lemma dedupeByLower_trimmed: "v \<in> set (dedupeByLower seen xs) \<Longrightarrow> trim v = v \<and> v \<noteq> []"
  by (induction seen xs rule: dedupeByLower.induct)
     (auto simp: Let_def trim_idem split: if_splits)

lemma dedupeByLower_idem: "dedupeByLower seen (dedupeByLower seen xs) = dedupeByLower seen xs"
proof (induction seen xs rule: dedupeByLower.induct)
  case (1 seen)
  show ?case by simp
next
  case (2 seen entry rest)
  show ?case
  proof (cases "trim entry = [] \<or> toLowerCase (trim entry) \<in> set seen")
    case True
    with 2 show ?thesis by (auto simp: Let_def)
  next
    case False
    with 2 show ?thesis by (simp add: Let_def trim_idem)
  qed
qed

lemma normalize_idem:
  "normalizePreferredLanguageList (PrefArray (normalizePreferredLanguageList p))
   = normalizePreferredLanguageList p"
  by (cases p) (simp_all add: normalizePreferredLanguageList_def dedupeByLower_idem)

lemma matches_normalized:
  "resultMatchesPreferredLanguage r (PrefArray (normalizePreferredLanguageList p))
   \<longleftrightarrow> languageKeys r \<inter> preferenceKeys p \<noteq> {}"
  by (simp add: matches_iff_intersect preferenceKeys_def normalize_idem)

lemma sorted_wrt_nth:
  "sorted_wrt R xs \<Longrightarrow> i < j \<Longrightarrow> j < length xs \<Longrightarrow> R (xs ! i) (xs ! j)"
  by (simp add: sorted_wrt_iff_nth_less)

lemma language_sort_decomposition:
  assumes "normalizePreferredLanguageList prefs \<noteq> []"
  shows "sortAnnotatedResults results ''language_quality_size'' prefs
         = jsSort compareQualityThenSize
             (filter (\<lambda>r. languageKeys r \<inter> preferenceKeys prefs \<noteq> {}) results)
           @ jsSort compareQualityThenSize
             (filter (\<lambda>r. languageKeys r \<inter> preferenceKeys prefs = {}) results)"
  using assms
  by (cases "results = []")
     (simp_all add: sortAnnotatedResults_def Let_def matches_normalized jsSort_def)

lemma bucket_order:
  assumes "res = ps @ os" and "\<forall>r \<in> set ps. P r" and "\<forall>r \<in> set os. \<not> P r"
    and "sorted_wrt R ps" and "sorted_wrt R os"
  shows "\<forall>i j. i < length res \<and> j < length res \<and> P (res ! i) \<and> \<not> P (res ! j) \<longrightarrow> i < j"
    and "\<forall>i j. i < j \<and> j < length res \<and> (P (res ! i) \<longleftrightarrow> P (res ! j)) \<longrightarrow> R (res ! i) (res ! j)"
proof -
  have in_ps: "\<And>i. i < length res \<Longrightarrow> P (res ! i) \<Longrightarrow> i < length ps"
  proof (rule ccontr)
    fix i assume i: "i < length res" "P (res ! i)" "\<not> i < length ps"
    then have "res ! i = os ! (i - length ps)" and "i - length ps < length os"
      using assms(1) by (auto simp: nth_append)
    then have "res ! i \<in> set os" by simp
    with assms(3) i(2) show False by blast
  qed
  have in_os: "\<And>j. j < length res \<Longrightarrow> \<not> P (res ! j) \<Longrightarrow> length ps \<le> j"
  proof (rule ccontr)
    fix j assume j: "j < length res" "\<not> P (res ! j)" "\<not> length ps \<le> j"
    then have "res ! j = ps ! j" and "j < length ps"
      using assms(1) by (auto simp: nth_append)
    then have "res ! j \<in> set ps" by simp
    with assms(2) j(2) show False by blast
  qed
  show "\<forall>i j. i < length res \<and> j < length res \<and> P (res ! i) \<and> \<not> P (res ! j) \<longrightarrow> i < j"
    using in_ps in_os by fastforce
  show "\<forall>i j. i < j \<and> j < length res \<and> (P (res ! i) \<longleftrightarrow> P (res ! j)) \<longrightarrow> R (res ! i) (res ! j)"
  proof (intro allI impI)
    fix i j assume a: "i < j \<and> j < length res \<and> (P (res ! i) \<longleftrightarrow> P (res ! j))"
    show "R (res ! i) (res ! j)"
    proof (cases "P (res ! j)")
      case True
      with a have "j < length ps" "i < length ps" using in_ps [of j] by auto
      then have "res ! i = ps ! i" "res ! j = ps ! j" using assms(1) by (simp_all add: nth_append)
      then show ?thesis using assms(4) a \<open>j < length ps\<close> by (simp add: sorted_wrt_nth)
    next
      case False
      with a have "length ps \<le> i" "length ps \<le> j" using in_os [of i] in_os [of j] by auto
      then have "res ! i = os ! (i - length ps)" "res ! j = os ! (j - length ps)"
        using assms(1) by (simp_all add: nth_append)
      moreover have "i - length ps < j - length ps" "j - length ps < length os"
        using a \<open>length ps \<le> i\<close> assms(1) by auto
      ultimately show ?thesis using assms(5) by (simp add: sorted_wrt_nth)
    qed
  qed
qed

text \<open>
  Claim C3 as stated fails in its last part: the preferred releases form one bucket sorted by
  quality and size; a release matching the second preferred language comes before a release
  matching the first one when its quality is higher.
\<close>

theorem language_sort_bucket_counterexample:
  "getPreferredLanguageMatches tamil1080 (PrefArray [''Tamil'', ''Hindi'']) = [''Tamil'']
   \<and> getPreferredLanguageMatches hindi2160 (PrefArray [''Tamil'', ''Hindi'']) = [''Hindi'']
   \<and> sortAnnotatedResults [tamil1080, hindi2160] ''language_quality_size''
        (PrefArray [''Tamil'', ''Hindi''])
       = [hindi2160, tamil1080]"
  by code_simp

text \<open>
  Claim C3, amended: in sort mode \<open>language_quality_size\<close> with a non-empty preferred-language
  list, the sort returns a permutation of its input that places every release whose language
  set intersects the preferred-language list (compared trimmed and case-insensitively)
  before every release whose set does not, and orders the releases within each of these two
  buckets by quality score descending, then size descending.  The preferred releases form a
  single bucket; the order of the preferred-language list plays no part.
\<close>

theorem language_sort_contract:
  assumes "normalizePreferredLanguageList prefs \<noteq> []"
  shows "mset (sortAnnotatedResults results ''language_quality_size'' prefs) = mset results
    \<and> (\<forall>i j. i < length (sortAnnotatedResults results ''language_quality_size'' prefs)
            \<and> j < length (sortAnnotatedResults results ''language_quality_size'' prefs)
            \<and> languageKeys (sortAnnotatedResults results ''language_quality_size'' prefs ! i)
                 \<inter> preferenceKeys prefs \<noteq> {}
            \<and> \<not> (languageKeys (sortAnnotatedResults results ''language_quality_size'' prefs ! j)
                 \<inter> preferenceKeys prefs \<noteq> {})
            \<longrightarrow> i < j)
    \<and> (\<forall>i j. i < j
            \<and> j < length (sortAnnotatedResults results ''language_quality_size'' prefs)
            \<and> ((languageKeys (sortAnnotatedResults results ''language_quality_size'' prefs ! i)
                   \<inter> preferenceKeys prefs \<noteq> {})
                 \<longleftrightarrow> (languageKeys (sortAnnotatedResults results ''language_quality_size'' prefs ! j)
                   \<inter> preferenceKeys prefs \<noteq> {}))
            \<longrightarrow> qualityThenSize
                  (sortAnnotatedResults results ''language_quality_size'' prefs ! i)
                  (sortAnnotatedResults results ''language_quality_size'' prefs ! j))
    \<and> sortAnnotatedResults results ''language_quality_size'' prefs
         = jsSort compareQualityThenSize
             (filter (\<lambda>r. languageKeys r \<inter> preferenceKeys prefs \<noteq> {}) results)
           @ jsSort compareQualityThenSize
             (filter (\<lambda>r. languageKeys r \<inter> preferenceKeys prefs = {}) results)"
proof -
  let ?P = "\<lambda>r. languageKeys r \<inter> preferenceKeys prefs \<noteq> {}"
  let ?ps = "jsSort compareQualityThenSize (filter ?P results)"
  let ?os = "jsSort compareQualityThenSize (filter (\<lambda>r. languageKeys r \<inter> preferenceKeys prefs = {}) results)"
  let ?res = "sortAnnotatedResults results ''language_quality_size'' prefs"
  have d: "?res = ?ps @ ?os" by (rule language_sort_decomposition [OF assms])
  have p: "\<forall>r \<in> set ?ps. ?P r" and o: "\<forall>r \<in> set ?os. \<not> ?P r"
    by (simp_all add: set_jsSort)
  have m: "mset ?res = mset results"
    unfolding d by (simp add: mset_jsSort)
  note b = bucket_order [OF d p o sorted_jsSort sorted_jsSort]
  show ?thesis using m b d by blast
qed

theorem language_sort_contract_witness:
  "normalizePreferredLanguageList (PrefString '' tamil , Hindi'') \<noteq> []
   \<and> sortAnnotatedResults [english2160, tamil1080, hindi2160] ''language_quality_size''
        (PrefString '' tamil , Hindi'')
       = [hindi2160, tamil1080, english2160]
   \<and> mset [hindi2160, tamil1080, english2160] = mset [english2160, tamil1080, hindi2160]
   \<and> languageKeys hindi2160 \<inter> preferenceKeys (PrefString '' tamil , Hindi'') \<noteq> {}
   \<and> languageKeys tamil1080 \<inter> preferenceKeys (PrefString '' tamil , Hindi'') \<noteq> {}
   \<and> \<not> (languageKeys english2160 \<inter> preferenceKeys (PrefString '' tamil , Hindi'') \<noteq> {})
   \<and> qualityThenSize hindi2160 tamil1080"
proof -
  let ?p = "PrefString '' tamil , Hindi''"
  let ?rs = "[english2160, tamil1080, hindi2160]"
  have n: "normalizePreferredLanguageList ?p \<noteq> []" by code_simp
  have r: "sortAnnotatedResults ?rs ''language_quality_size'' ?p
       = [hindi2160, tamil1080, english2160]"
    by code_simp
  have k1: "languageKeys hindi2160 \<inter> preferenceKeys ?p \<noteq> {}"
    and k2: "languageKeys tamil1080 \<inter> preferenceKeys ?p \<noteq> {}"
    and k3: "\<not> (languageKeys english2160 \<inter> preferenceKeys ?p \<noteq> {})"
    unfolding matches_iff_intersect [symmetric] by code_simp+
  have k: "(languageKeys hindi2160 \<inter> preferenceKeys ?p \<noteq> {})
      \<longleftrightarrow> (languageKeys tamil1080 \<inter> preferenceKeys ?p \<noteq> {})"
    using k1 k2 by blast
  note c = language_sort_contract [OF n, of ?rs]
  have m: "mset [hindi2160, tamil1080, english2160] = mset ?rs"
    using c unfolding r by blast
  have "(0::nat) < 1 \<and> 1 < length [hindi2160, tamil1080, english2160]
      \<and> ((languageKeys ([hindi2160, tamil1080, english2160] ! 0) \<inter> preferenceKeys ?p \<noteq> {})
          \<longleftrightarrow> (languageKeys ([hindi2160, tamil1080, english2160] ! 1) \<inter> preferenceKeys ?p \<noteq> {}))"
    using k by simp
  then have "qualityThenSize ([hindi2160, tamil1080, english2160] ! 0)
      ([hindi2160, tamil1080, english2160] ! 1)"
    using c unfolding r by blast
  then have q: "qualityThenSize hindi2160 tamil1080" by simp
  show ?thesis using n r m q k1 k2 k3 by blast
qed


section \<open>Results: title deduplication\<close>

lemma paid_stamp [simp]:
  "isResultFromPaidIndexer env (stampPublish env r) = isResultFromPaidIndexer env r"
  by (simp add: stampPublish_def isResultFromPaidIndexer_def split: option.split)

lemma findMatch_None:
  "\<forall>e \<in> set es. \<not> areReleasesWithinDays (be_publishDateMs e) cp DEDUPE_MAX_PUBLISH_DIFF_DAYS
   \<Longrightarrow> findMatch cp es = None"
  by (induction es) auto

lemma farApart_not_within:
  "farApart env x c \<Longrightarrow>
   \<not> areReleasesWithinDays (publishOf env x) (publishOf env c) DEDUPE_MAX_PUBLISH_DIFF_DAYS"
  by (auto simp: farApart_def areReleasesWithinDays_def DEDUPE_MAX_PUBLISH_DIFF_DAYS_def
      split: option.splits)

lemma untouched_step:
  assumes "untouched env s done"
    and "\<forall>x \<in> set done. titleOf x = titleOf c \<and> titleOf c \<noteq> [] \<longrightarrow> farApart env x c"
  shows "untouched env (dedupeStep env s c) (done @ [c])"
proof (cases "titleOf c = []")
  case True
  with assms(1) show ?thesis
    by (auto simp: untouched_def dedupeStep_def titleOf_def Let_def)
next
  case False
  let ?t = "titleOf c"
  have "\<forall>e \<in> set (ds_buckets s ?t).
          \<not> areReleasesWithinDays (be_publishDateMs e) (publishOf env c) DEDUPE_MAX_PUBLISH_DIFF_DAYS"
  proof
    fix e assume "e \<in> set (ds_buckets s ?t)"
    then have m: "be_publishDateMs e \<in> set (map be_publishDateMs (ds_buckets s ?t))" by simp
    have "map be_publishDateMs (ds_buckets s ?t)
        = map (publishOf env) (filter (\<lambda>r. titleOf r = ?t) done)"
      using assms(1) False unfolding untouched_def by blast
    with m have "be_publishDateMs e \<in> set (map (publishOf env) (filter (\<lambda>r. titleOf r = ?t) done))"
      by (simp only:)
    then obtain x where x: "x \<in> set done" "titleOf x = ?t" "be_publishDateMs e = publishOf env x"
      by auto
    with assms(2) False have "farApart env x c" by simp
    then show "\<not> areReleasesWithinDays (be_publishDateMs e) (publishOf env c)
        DEDUPE_MAX_PUBLISH_DIFF_DAYS"
      using x(3) farApart_not_within by simp
  qed
  then have n: "findMatch (publishOf env c) (ds_buckets s ?t) = None" by (rule findMatch_None)
  show ?thesis
    using assms(1) False n
    by (auto simp: untouched_def dedupeStep_def titleOf_def Let_def)
qed

lemma allFarApart_snoc:
  "allFarApart env (xs @ [c]) \<longleftrightarrow>
     allFarApart env xs
     \<and> (\<forall>x \<in> set xs. titleOf c = titleOf x \<and> titleOf x \<noteq> [] \<longrightarrow> farApart env x c)"
  by (induction xs) (auto simp: list_all_iff)

lemma untouched_foldl:
  "allFarApart env xs \<Longrightarrow> untouched env (foldl (dedupeStep env) initialDedupe xs) xs"
proof (induction xs rule: rev_induct)
  case Nil
  show ?case by (simp add: untouched_def initialDedupe_def)
next
  case (snoc c xs)
  from snoc.prems have a: "allFarApart env xs"
    and f: "\<forall>x \<in> set xs. titleOf x = titleOf c \<and> titleOf c \<noteq> [] \<longrightarrow> farApart env x c"
    by (auto simp: allFarApart_snoc)
  from untouched_step [OF snoc.IH [OF a] f] show ?case by simp
qed

lemma dedupe_far_apart:
  "allFarApart env xs \<Longrightarrow> dedupeResultsByTitle env xs = map (stampPublish env) xs"
  using untouched_foldl [of env xs] by (simp add: dedupeResultsByTitle_def untouched_def)

text \<open>The first release of a title opens a subgroup.\<close>

lemma first_step:
  assumes "titleOf a \<noteq> []"
  shows "dedupeStep env initialDedupe a =
     \<lparr>ds_buckets = (\<lambda>t. [])(titleOf a :=
         [\<lparr>be_publishDateMs = publishOf env a, be_isPaid = isResultFromPaidIndexer env a,
           be_result = stampPublish env a, be_listIndex = 0\<rparr>]),
      ds_deduped = [stampPublish env a]\<rparr>"
  using assms by (simp add: dedupeStep_def initialDedupe_def titleOf_def Let_def)

lemma pair_collapse:
  assumes "titleOf a = titleOf b" and "titleOf a \<noteq> []"
    and "areReleasesWithinDays (publishOf env a) (publishOf env b) DEDUPE_MAX_PUBLISH_DIFF_DAYS"
  shows "dedupeResultsByTitle env [a, b] = [stampPublish env (pairWinner env a b)]"
proof -
  let ?s1 = "\<lparr>ds_buckets = (\<lambda>t. [])(titleOf a :=
         [\<lparr>be_publishDateMs = publishOf env a, be_isPaid = isResultFromPaidIndexer env a,
           be_result = stampPublish env a, be_listIndex = 0\<rparr>]),
      ds_deduped = [stampPublish env a]\<rparr>"
  have t: "normalizeReleaseTitle (rel_title b) = titleOf a"
    using assms(1) by (simp add: titleOf_def)
  have "ds_deduped (dedupeStep env ?s1 b) = [stampPublish env (pairWinner env a b)]"
    using assms(2,3)
    by (auto simp: dedupeStep_def t Let_def replaceEntry_def pairWinner_def
        split: option.splits)
  then show ?thesis
    using first_step [OF assms(2), of env] by (simp add: dedupeResultsByTitle_def)
qed

lemma pair_kept:
  assumes "titleOf a \<noteq> titleOf b \<or> titleOf a = [] \<or> farApart env a b"
  shows "dedupeResultsByTitle env [a, b] = [stampPublish env a, stampPublish env b]"
proof -
  have "allFarApart env [a, b]" using assms by auto
  then show ?thesis using dedupe_far_apart by fastforce
qed

lemma within_unknown:
  "p = None \<or> q = None \<Longrightarrow> areReleasesWithinDays p q DEDUPE_MAX_PUBLISH_DIFF_DAYS"
  by (auto simp: areReleasesWithinDays_def split: option.splits)

lemma findMatch_unknown: "es \<noteq> [] \<Longrightarrow> findMatch None es = Some 0"
  by (cases es) (simp_all add: within_unknown)

lemma findMatch_bound: "findMatch cp es = Some i \<Longrightarrow> i < length es"
  by (induction es arbitrary: i) (auto split: if_splits)

lemma subgroupsOpened_step:
  assumes "subgroupsOpened s done"
  shows "subgroupsOpened (dedupeStep env s c) (done @ [c])"
proof (cases "titleOf c = []")
  case True
  with assms show ?thesis
    by (auto simp: subgroupsOpened_def dedupeStep_def titleOf_def Let_def)
next
  case False
  show ?thesis
  proof (cases "findMatch (publishOf env c) (ds_buckets s (titleOf c))")
    case None
    with assms False show ?thesis
      by (auto simp: subgroupsOpened_def dedupeStep_def titleOf_def Let_def)
  next
    case (Some i)
    then have ne: "ds_buckets s (titleOf c) \<noteq> []" by (cases "ds_buckets s (titleOf c)") auto
    have b: "\<And>t. (ds_buckets (dedupeStep env s c) t \<noteq> []) = (ds_buckets s t \<noteq> [])"
      using Some False
      by (auto simp: dedupeStep_def titleOf_def Let_def replaceEntry_def split: option.splits)
    show ?thesis
      unfolding subgroupsOpened_def
    proof (intro allI impI)
      fix t :: string assume t: "t \<noteq> []"
      show "(ds_buckets (dedupeStep env s c) t \<noteq> []) = (\<exists>x \<in> set (done @ [c]). titleOf x = t)"
      proof (cases "t = titleOf c")
        case True
        with ne b show ?thesis by auto
      next
        case False
        with assms t b show ?thesis by (auto simp: subgroupsOpened_def)
      qed
    qed
  qed
qed

lemma subgroupsOpened_foldl: "subgroupsOpened (foldl (dedupeStep env) initialDedupe xs) xs"
proof (induction xs rule: rev_induct)
  case Nil
  show ?case by (simp add: subgroupsOpened_def initialDedupe_def)
next
  case (snoc c xs)
  from subgroupsOpened_step [OF snoc.IH] show ?case by simp
qed

lemma unknown_step_length:
  assumes "publishOf env c = None" and "titleOf c \<noteq> []" and "ds_buckets s (titleOf c) \<noteq> []"
  shows "length (ds_deduped (dedupeStep env s c)) = length (ds_deduped s)"
  using assms findMatch_unknown [OF assms(3)]
  by (auto simp: dedupeStep_def titleOf_def Let_def replaceEntry_def)

lemma unknown_joins_first_subgroup:
  assumes "publishOf env c = None" and "titleOf c \<noteq> []" and "\<exists>x \<in> set xs. titleOf x = titleOf c"
  shows "length (dedupeResultsByTitle env (xs @ [c])) = length (dedupeResultsByTitle env xs)"
proof -
  have "ds_buckets (foldl (dedupeStep env) initialDedupe xs) (titleOf c) \<noteq> []"
    using subgroupsOpened_foldl [of env xs] assms(2,3) by (simp add: subgroupsOpened_def)
  from unknown_step_length [OF assms(1,2) this] show ?thesis
    by (simp add: dedupeResultsByTitle_def)
qed

lemma pairWinner_cases:
  "(isResultFromPaidIndexer env b \<and> \<not> isResultFromPaidIndexer env a \<longrightarrow> pairWinner env a b = b)
   \<and> (isResultFromPaidIndexer env a \<and> \<not> isResultFromPaidIndexer env b \<longrightarrow> pairWinner env a b = a)
   \<and> (isResultFromPaidIndexer env a = isResultFromPaidIndexer env b \<longrightarrow>
        (\<forall>x y. publishOf env a = Some x \<and> publishOf env b = Some y \<longrightarrow>
           pairWinner env a b = (if y > x then b else a))
        \<and> (publishOf env b = None \<longrightarrow> pairWinner env a b = a)
        \<and> (publishOf env a = None \<and> publishOf env b \<noteq> None \<longrightarrow> pairWinner env a b = b))"
  by (auto simp: pairWinner_def split: option.splits)


section \<open>Title deduplication by positions\<close>

lemma titleOf_stamp [simp]: "titleOf (stampPublish env r) = titleOf r"
  by (simp add: titleOf_def stampPublish_def split: option.split)

lemma pairWinner_replaces: "pairWinner env a b = (if replaces env a b then b else a)"
  by (auto simp: pairWinner_def replaces_def split: option.splits)

lemma withinOf_sym: "withinOf env a b = withinOf env b a"
  by (auto simp: withinOf_def areReleasesWithinDays_def split: option.splits)

lemma find_filter: "find P (filter Q xs) = find (\<lambda>x. Q x \<and> P x) xs"
  by (induction xs) auto

lemma findMatch_map:
  assumes "\<forall>j \<in> set L. be_publishDateMs (e j) = pub j"
  shows "(findMatch cp (map e L) = None) =
           (find (\<lambda>j. areReleasesWithinDays (pub j) cp DEDUPE_MAX_PUBLISH_DIFF_DAYS) L = None)"
    and "findMatch cp (map e L) = Some i \<Longrightarrow>
           i < length L
           \<and> find (\<lambda>j. areReleasesWithinDays (pub j) cp DEDUPE_MAX_PUBLISH_DIFF_DAYS) L
               = Some (L ! i)"
  using assms
proof (induction L arbitrary: i)
  case Nil
  { case 1 show ?case by simp }
  { case 2 then show ?case by simp }
next
  case (Cons a L)
  { case 1
    then show ?case using Cons.IH(1) by auto }
  { case 2
    then show ?case using Cons.IH(2) by (auto split: if_splits) }
qed

lemma distinct_titleSlots: "distinct (titleSlots xs slots t)"
  by (simp add: titleSlots_def)

lemma titleSlots_member:
  "j \<in> set (titleSlots xs slots t) \<longleftrightarrow> j < length slots \<and> titleOf (xs ! (slots ! j)) = t"
  by (auto simp: titleSlots_def)

text \<open>The bucket of a title and the first match, in terms of the slots.\<close>

lemma findMatch_slotMatch:
  assumes "ds_buckets s (titleOf c) = map (entryOf env xs slots) (titleSlots xs slots (titleOf c))"
  shows "(findMatch (publishOf env c) (ds_buckets s (titleOf c)) = None)
           = (slotMatch env xs slots c = None)"
    and "findMatch (publishOf env c) (ds_buckets s (titleOf c)) = Some i \<Longrightarrow>
           i < length (titleSlots xs slots (titleOf c))
           \<and> slotMatch env xs slots c = Some (titleSlots xs slots (titleOf c) ! i)"
proof -
  let ?L = "titleSlots xs slots (titleOf c)"
  let ?pub = "\<lambda>j. publishOf env (xs ! (slots ! j))"
  have e: "\<forall>j \<in> set ?L. be_publishDateMs (entryOf env xs slots j) = ?pub j"
    by (simp add: entryOf_def)
  have f: "slotMatch env xs slots c
      = find (\<lambda>j. areReleasesWithinDays (?pub j) (publishOf env c) DEDUPE_MAX_PUBLISH_DIFF_DAYS) ?L"
    by (simp add: slotMatch_def titleSlots_def find_filter withinOf_def)
  show "(findMatch (publishOf env c) (ds_buckets s (titleOf c)) = None)
           = (slotMatch env xs slots c = None)"
    unfolding assms f by (rule findMatch_map(1) [OF e])
  show "findMatch (publishOf env c) (ds_buckets s (titleOf c)) = Some i \<Longrightarrow>
           i < length ?L \<and> slotMatch env xs slots c = Some (?L ! i)"
    unfolding assms f by (rule findMatch_map(2) [OF e])
qed

text \<open>A release appended to the slots.\<close>

lemma titleSlots_append:
  "titleSlots xs (slots @ [k]) t
     = titleSlots xs slots t @ (if titleOf (xs ! k) = t then [length slots] else [])"
proof -
  have "filter (\<lambda>j. titleOf (xs ! ((slots @ [k]) ! j)) = t) [0..<length slots]
      = filter (\<lambda>j. titleOf (xs ! (slots ! j)) = t) [0..<length slots]"
    by (rule filter_cong) (simp_all add: nth_append)
  then show ?thesis by (simp add: titleSlots_def)
qed

lemma entryOf_append:
  "map (entryOf env xs (slots @ [k])) (titleSlots xs slots t)
     = map (entryOf env xs slots) (titleSlots xs slots t)"
  by (rule map_cong) (simp_all add: titleSlots_member entryOf_def nth_append)

lemma represents_append:
  assumes "represents env xs s slots"
    and "ds_deduped s' = ds_deduped s @ [stampPublish env (xs ! k)]"
    and "\<And>t. t \<noteq> [] \<Longrightarrow> ds_buckets s' t =
            ds_buckets s t @ (if titleOf (xs ! k) = t
                              then [\<lparr>be_publishDateMs = publishOf env (xs ! k),
                                     be_isPaid = isResultFromPaidIndexer env (xs ! k),
                                     be_result = stampPublish env (xs ! k),
                                     be_listIndex = length slots\<rparr>]
                              else [])"
  shows "represents env xs s' (slots @ [k])"
  using assms
  by (simp add: represents_def titleSlots_append entryOf_append) (simp add: entryOf_def)

text \<open>A slot that passes to another release of the same title.\<close>

lemma titleSlots_update:
  assumes "j < length slots" "titleOf (xs ! k) = titleOf (xs ! (slots ! j))"
  shows "titleSlots xs (slots[j := k]) t = titleSlots xs slots t"
proof -
  have "filter (\<lambda>i. titleOf (xs ! (slots[j := k] ! i)) = t) [0..<length slots]
      = filter (\<lambda>i. titleOf (xs ! (slots ! i)) = t) [0..<length slots]"
    by (rule filter_cong) (use assms in \<open>auto simp: nth_list_update\<close>)
  then show ?thesis by (simp add: titleSlots_def)
qed

lemma map_update_distinct:
  assumes "distinct L" "i < length L" "\<And>x. x \<in> set L \<Longrightarrow> x \<noteq> L ! i \<Longrightarrow> g x = f x"
  shows "map g L = (map f L)[i := g (L ! i)]"
proof (rule nth_equalityI)
  show "length (map g L) = length ((map f L)[i := g (L ! i)])" by simp
next
  fix n assume n: "n < length (map g L)"
  show "map g L ! n = (map f L)[i := g (L ! i)] ! n"
  proof (cases "n = i")
    case True
    then show ?thesis using n by simp
  next
    case False
    then have "L ! n \<noteq> L ! i"
      using assms(1,2) n by (simp add: nth_eq_iff_index_eq)
    then show ?thesis using n False assms(3) [of "L ! n"] by simp
  qed
qed

lemma represents_update:
  assumes r: "represents env xs s slots"
    and t: "titleOf (xs ! k) \<noteq> []"
    and i: "i < length (titleSlots xs slots (titleOf (xs ! k)))"
    and j: "j = titleSlots xs slots (titleOf (xs ! k)) ! i"
    and e: "e = \<lparr>be_publishDateMs = publishOf env (xs ! k),
                 be_isPaid = isResultFromPaidIndexer env (xs ! k),
                 be_result = stampPublish env (xs ! k), be_listIndex = j\<rparr>"
  shows "represents env xs (replaceEntry s (titleOf (xs ! k)) i e (stampPublish env (xs ! k)))
           (slots[j := k])"
proof -
  let ?t = "titleOf (xs ! k)"
  let ?L = "titleSlots xs slots ?t"
  have jm: "j \<in> set ?L" using i j by simp
  then have jl: "j < length slots" and jt: "titleOf (xs ! (slots ! j)) = ?t"
    by (simp_all add: titleSlots_member)
  have ts: "\<And>u. titleSlots xs (slots[j := k]) u = titleSlots xs slots u"
    using titleSlots_update [OF jl] jt by simp
  have ej: "entryOf env xs (slots[j := k]) j = e"
    using jl by (simp add: entryOf_def e)
  have eo: "\<And>x. x \<noteq> j \<Longrightarrow> entryOf env xs (slots[j := k]) x = entryOf env xs slots x"
    by (simp add: entryOf_def)
  have d: "ds_deduped (replaceEntry s ?t i e (stampPublish env (xs ! k)))
      = map (\<lambda>p. stampPublish env (xs ! p)) (slots[j := k])"
    using r by (simp add: replaceEntry_def represents_def e map_update)
  have b: "ds_buckets (replaceEntry s ?t i e (stampPublish env (xs ! k))) u
      = map (entryOf env xs (slots[j := k])) (titleSlots xs (slots[j := k]) u)"
    if u: "u \<noteq> []" for u
  proof (cases "u = ?t")
    case True
    have "map (entryOf env xs (slots[j := k])) ?L
        = (map (entryOf env xs slots) ?L)[i := entryOf env xs (slots[j := k]) (?L ! i)]"
      by (rule map_update_distinct [OF distinct_titleSlots i]) (use j eo in auto)
    then show ?thesis
      using r t True by (simp add: replaceEntry_def represents_def ts ej j [symmetric])
  next
    case False
    have nj: "j \<notin> set (titleSlots xs slots u)"
      using jt False by (simp add: titleSlots_member)
    have "\<And>x. x \<in> set (titleSlots xs slots u) \<Longrightarrow>
        entryOf env xs (slots[j := k]) x = entryOf env xs slots x"
      using nj eo by metis
    then have "map (entryOf env xs (slots[j := k])) (titleSlots xs slots u)
        = map (entryOf env xs slots) (titleSlots xs slots u)"
      by (rule map_cong [OF refl])
    then show ?thesis
      using r u False by (simp add: replaceEntry_def represents_def ts)
  qed
  show ?thesis
    unfolding represents_def using d b by blast
qed

text \<open>One iteration of the loop, followed on the slots.\<close>

lemma represents_step:
  assumes r: "represents env xs s slots"
  shows "represents env xs (dedupeStep env s (xs ! k)) (fst (slotStep env xs (slots, removed) k))"
proof -
  let ?c = "xs ! k"
  let ?t = "titleOf ?c"
  have len: "length (ds_deduped s) = length slots"
    using r by (simp add: represents_def)
  show ?thesis
  proof (cases "?t = []")
    case True
    have d: "dedupeStep env s ?c = s\<lparr>ds_deduped := ds_deduped s @ [stampPublish env ?c]\<rparr>"
      using True by (simp add: dedupeStep_def titleOf_def Let_def)
    have sl: "fst (slotStep env xs (slots, removed) k) = slots @ [k]"
      using True by (simp add: slotStep_def)
    show ?thesis
      unfolding d sl by (rule represents_append [OF r]) (use True in auto)
  next
    case False
    have b: "ds_buckets s ?t = map (entryOf env xs slots) (titleSlots xs slots ?t)"
      using r False by (simp add: represents_def)
    note fm = findMatch_slotMatch [OF b]
    show ?thesis
    proof (cases "findMatch (publishOf env ?c) (ds_buckets s ?t)")
      case None
      then have f: "slotMatch env xs slots ?c = None"
        using fm(1) by simp
      have d: "dedupeStep env s ?c =
          \<lparr>ds_buckets = (ds_buckets s)(?t := ds_buckets s ?t @
               [\<lparr>be_publishDateMs = publishOf env ?c,
                 be_isPaid = isResultFromPaidIndexer env ?c,
                 be_result = stampPublish env ?c, be_listIndex = length slots\<rparr>]),
           ds_deduped = ds_deduped s @ [stampPublish env ?c]\<rparr>"
        using False None len by (simp add: dedupeStep_def titleOf_def Let_def)
      have sl: "fst (slotStep env xs (slots, removed) k) = slots @ [k]"
        using False f by (simp add: slotStep_def)
      show ?thesis
        unfolding d sl by (rule represents_append [OF r]) auto
    next
      case (Some i)
      let ?L = "titleSlots xs slots ?t"
      from fm(2) [OF Some] have i: "i < length ?L"
        and f: "slotMatch env xs slots ?c = Some (?L ! i)"
        by simp_all
      let ?j = "?L ! i"
      let ?a = "xs ! (slots ! ?j)"
      let ?e = "\<lparr>be_publishDateMs = publishOf env ?c,
                 be_isPaid = isResultFromPaidIndexer env ?c,
                 be_result = stampPublish env ?c, be_listIndex = ?j\<rparr>"
      have m: "ds_buckets s ?t ! i = entryOf env xs slots ?j"
        using b i by simp
      have d: "dedupeStep env s ?c =
          (if replaces env ?a ?c then replaceEntry s ?t i ?e (stampPublish env ?c) else s)"
        using False Some m
        by (auto simp: dedupeStep_def titleOf_def Let_def replaces_def entryOf_def
            split: option.splits)
      have sl: "fst (slotStep env xs (slots, removed) k)
          = (if replaces env ?a ?c then slots[?j := k] else slots)"
        using False f by (simp add: slotStep_def)
      show ?thesis
        unfolding d sl using represents_update [OF r False i refl refl] r by simp
    qed
  qed
qed

lemma slotPass_Suc: "slotPass env xs (Suc n) = slotStep env xs (slotPass env xs n) n"
  by (simp add: slotPass_def)

lemma represents_pass:
  "n \<le> length xs \<Longrightarrow>
   represents env xs (foldl (dedupeStep env) initialDedupe (take n xs)) (fst (slotPass env xs n))"
proof (induction n)
  case 0
  show ?case
    by (simp add: slotPass_def represents_def initialDedupe_def titleSlots_def)
next
  case (Suc n)
  then have n: "n < length xs" by simp
  have t: "take (Suc n) xs = take n xs @ [xs ! n]"
    using n by (rule take_Suc_conv_app_nth)
  have "represents env xs (dedupeStep env (foldl (dedupeStep env) initialDedupe (take n xs)) (xs ! n))
      (fst (slotStep env xs (fst (slotPass env xs n), snd (slotPass env xs n)) n))"
    by (rule represents_step) (use Suc in simp)
  then show ?case by (simp add: t slotPass_Suc)
qed

text \<open>The output of the pass is the list of the survivors.\<close>

lemma dedupe_survivors:
  "dedupeResultsByTitle env xs = map (\<lambda>p. stampPublish env (xs ! p)) (survivors env xs)"
  using represents_pass [of "length xs" xs env]
  by (simp add: dedupeResultsByTitle_def survivors_def represents_def)

text \<open>What the first match is.\<close>

lemma slotMatch_Some:
  assumes "slotMatch env xs slots c = Some j"
  shows "j < length slots" and "titleOf (xs ! (slots ! j)) = titleOf c"
    and "withinOf env (xs ! (slots ! j)) c"
  using assms by (auto simp: slotMatch_def find_Some_iff)

lemma slotMatch_None:
  assumes "slotMatch env xs slots c = None" "j < length slots"
    "titleOf (xs ! (slots ! j)) = titleOf c"
  shows "\<not> withinOf env (xs ! (slots ! j)) c"
  using assms by (auto simp: slotMatch_def find_None_iff)

text \<open>Every position is a survivor or has been removed, and a removal pairs two releases of
  one title that the window test accepts.\<close>

lemma slotStep_facts:
  assumes b: "\<forall>p \<in> set slots. p < n"
    and l: "\<forall>(l, w) \<in> set removed. l < n \<and> w < n \<and> l \<noteq> w \<and> titleOf (xs ! l) = titleOf (xs ! w)
              \<and> titleOf (xs ! l) \<noteq> [] \<and> withinOf env (xs ! l) (xs ! w)"
    and m: "mset slots + mset (map fst removed) = mset [0..<n]"
    and s: "slotStep env xs (slots, removed) n = (slots', removed')"
  shows "(\<forall>p \<in> set slots'. p < Suc n)
       \<and> (\<forall>(l, w) \<in> set removed'. l < Suc n \<and> w < Suc n \<and> l \<noteq> w \<and> titleOf (xs ! l) = titleOf (xs ! w)
              \<and> titleOf (xs ! l) \<noteq> [] \<and> withinOf env (xs ! l) (xs ! w))
       \<and> mset slots' + mset (map fst removed') = mset [0..<Suc n]"
proof -
  have l': "\<forall>(l, w) \<in> set removed. l < Suc n \<and> w < Suc n \<and> l \<noteq> w \<and> titleOf (xs ! l) = titleOf (xs ! w)
              \<and> titleOf (xs ! l) \<noteq> [] \<and> withinOf env (xs ! l) (xs ! w)"
    using l by fastforce
  have b': "\<forall>p \<in> set slots. p < Suc n" using b by fastforce
  have up: "mset [0..<Suc n] = add_mset n (mset [0..<n])" by simp
  consider (app) "slots' = slots @ [n]" "removed' = removed"
    | (rep) j where "slotMatch env xs slots (xs ! n) = Some j" "titleOf (xs ! n) \<noteq> []"
        "slots' = slots[j := n]" "removed' = removed @ [(slots ! j, n)]"
    | (drop) j where "slotMatch env xs slots (xs ! n) = Some j" "titleOf (xs ! n) \<noteq> []"
        "slots' = slots" "removed' = removed @ [(n, slots ! j)]"
    using s by (auto simp: slotStep_def split: if_splits option.splits)
  then show ?thesis
  proof cases
    case app
    have "mset slots' + mset (map fst removed')
        = add_mset n (mset slots + mset (map fst removed))"
      unfolding app by simp
    also have "\<dots> = mset [0..<Suc n]"
      unfolding m up ..
    finally have ms: "mset slots' + mset (map fst removed') = mset [0..<Suc n]" .
    have p: "\<forall>p \<in> set slots'. p < Suc n" using b' app(1) by simp
    have q: "\<forall>(l, w) \<in> set removed'. l < Suc n \<and> w < Suc n \<and> l \<noteq> w \<and> titleOf (xs ! l) = titleOf (xs ! w)
              \<and> titleOf (xs ! l) \<noteq> [] \<and> withinOf env (xs ! l) (xs ! w)"
      using l' app(2) by simp
    show ?thesis using p q ms by blast
  next
    case (rep j)
    note f = slotMatch_Some [OF rep(1)]
    have sj: "slots ! j < n" using b f(1) by simp
    have p: "\<forall>p \<in> set slots'. p < Suc n"
      using b' set_update_subset_insert [of slots j n] unfolding rep(3) by fastforce
    have q: "\<forall>(l, w) \<in> set removed'. l < Suc n \<and> w < Suc n \<and> l \<noteq> w \<and> titleOf (xs ! l) = titleOf (xs ! w)
              \<and> titleOf (xs ! l) \<noteq> [] \<and> withinOf env (xs ! l) (xs ! w)"
      using l' sj f(2,3) rep(2) unfolding rep(4) by auto
    have "slots ! j \<in># mset slots" using f(1) by simp
    then have i: "add_mset (slots ! j) (mset slots - {#slots ! j#}) = mset slots"
      by (rule insert_DiffM)
    have a: "mset (slots[j := n]) = add_mset n (mset slots - {#slots ! j#})"
      using f(1) by (rule mset_update)
    have "mset slots' + mset (map fst removed')
        = add_mset n (add_mset (slots ! j) (mset slots - {#slots ! j#}) + mset (map fst removed))"
      unfolding rep(3,4) a by simp
    also have "\<dots> = add_mset n (mset slots + mset (map fst removed))"
      unfolding i ..
    also have "\<dots> = mset [0..<Suc n]"
      unfolding m up ..
    finally have ms: "mset slots' + mset (map fst removed') = mset [0..<Suc n]" .
    show ?thesis using p q ms by blast
  next
    case (drop j)
    note f = slotMatch_Some [OF drop(1)]
    have sj: "slots ! j < n" using b f(1) by simp
    have w: "withinOf env (xs ! n) (xs ! (slots ! j))"
      using f(3) withinOf_sym by blast
    have q: "\<forall>(l, w) \<in> set removed'. l < Suc n \<and> w < Suc n \<and> l \<noteq> w \<and> titleOf (xs ! l) = titleOf (xs ! w)
              \<and> titleOf (xs ! l) \<noteq> [] \<and> withinOf env (xs ! l) (xs ! w)"
      using l' sj f(2) w drop(2) unfolding drop(4) by auto
    have "mset slots' + mset (map fst removed')
        = add_mset n (mset slots + mset (map fst removed))"
      unfolding drop(3,4) by simp
    also have "\<dots> = mset [0..<Suc n]"
      unfolding m up ..
    finally have ms: "mset slots' + mset (map fst removed') = mset [0..<Suc n]" .
    have p: "\<forall>p \<in> set slots'. p < Suc n" using b' drop(3) by simp
    show ?thesis using p q ms by blast
  qed
qed

lemma slotPass_facts:
  "(\<forall>p \<in> set (fst (slotPass env xs n)). p < n)
   \<and> (\<forall>(l, w) \<in> set (snd (slotPass env xs n)).
         l < n \<and> w < n \<and> l \<noteq> w \<and> titleOf (xs ! l) = titleOf (xs ! w)
         \<and> titleOf (xs ! l) \<noteq> [] \<and> withinOf env (xs ! l) (xs ! w))
   \<and> mset (fst (slotPass env xs n)) + mset (map fst (snd (slotPass env xs n))) = mset [0..<n]"
proof (induction n)
  case 0
  show ?case by (simp add: slotPass_def)
next
  case (Suc n)
  have s: "slotStep env xs (fst (slotPass env xs n), snd (slotPass env xs n)) n
      = (fst (slotPass env xs (Suc n)), snd (slotPass env xs (Suc n)))"
    by (simp add: slotPass_Suc)
  show ?case
    using slotStep_facts [OF _ _ _ s] Suc by blast
qed

text \<open>The releases of one title when the window test accepts any two of them.\<close>

lemma filter_update_other:
  "\<not> P v \<Longrightarrow> j < length xs \<Longrightarrow> \<not> P (xs ! j) \<Longrightarrow> filter P (xs[j := v]) = filter P xs"
proof (induction xs arbitrary: j)
  case Nil
  then show ?case by simp
next
  case (Cons a xs)
  then show ?case by (cases j) auto
qed

lemma filter_update_single:
  assumes "P v" "j < length xs" "P (xs ! j)" "filter P xs = [b]"
  shows "filter P (xs[j := v]) = [v]"
proof -
  have x: "xs = take j xs @ xs ! j # drop (Suc j) xs"
    using assms(2) by (rule id_take_nth_drop)
  have "filter P (take j xs) @ xs ! j # filter P (drop (Suc j) xs) = [b]"
    using assms(3,4) x by (metis filter.simps(2) filter_append)
  then have e: "filter P (take j xs) = []" "filter P (drop (Suc j) xs) = []"
    by (simp_all add: append_eq_Cons_conv)
  have "xs[j := v] = take j xs @ v # drop (Suc j) xs"
    using assms(2) by (rule upd_conv_take_nth_drop)
  then have "filter P (xs[j := v]) = filter P (take j xs) @ v # filter P (drop (Suc j) xs)"
    using assms(1) by simp
  then show ?thesis using e by simp
qed

lemma titlePositions_Suc:
  "titlePositions xs t (Suc n)
     = titlePositions xs t n @ (if titleOf (xs ! n) = t then [n] else [])"
  by (simp add: titlePositions_def)

lemma titlePositions_mono:
  "n \<le> m \<Longrightarrow> set (titlePositions xs t n) \<subseteq> set (titlePositions xs t m)"
  by (auto simp: titlePositions_def)

lemma foldl_pick_mem: "foldl (pick env xs) b ps \<in> insert b (set ps)"
  by (induction ps arbitrary: b) (auto simp: pick_def)

lemma groupWinner_mem: "ps \<noteq> [] \<Longrightarrow> groupWinner env xs ps \<in> set ps"
  using foldl_pick_mem [of env xs "hd ps" "tl ps"]
  by (cases ps) (auto simp: groupWinner_def)

lemma groupWinner_snoc:
  "ps \<noteq> [] \<Longrightarrow> groupWinner env xs (ps @ [n]) = pick env xs (groupWinner env xs ps) n"
  by (cases ps) (simp_all add: groupWinner_def)

lemma group_step:
  assumes t: "t \<noteq> []"
    and h: "\<forall>p \<in> set (titlePositions xs t (Suc n)). \<forall>q \<in> set (titlePositions xs t (Suc n)).
              withinOf env (xs ! p) (xs ! q)"
    and f: "filter (\<lambda>p. titleOf (xs ! p) = t) slots
              = (if titlePositions xs t n = [] then []
                 else [groupWinner env xs (titlePositions xs t n)])"
  shows "filter (\<lambda>p. titleOf (xs ! p) = t) (fst (slotStep env xs (slots, removed) n))
           = (if titlePositions xs t (Suc n) = [] then []
              else [groupWinner env xs (titlePositions xs t (Suc n))])"
proof (cases "titleOf (xs ! n) = t")
  case False
  have p: "titlePositions xs t (Suc n) = titlePositions xs t n"
    using False by (simp add: titlePositions_Suc)
  have "filter (\<lambda>p. titleOf (xs ! p) = t) (fst (slotStep env xs (slots, removed) n))
      = filter (\<lambda>p. titleOf (xs ! p) = t) slots"
  proof (cases "titleOf (xs ! n) = []")
    case True
    then show ?thesis using False by (simp add: slotStep_def)
  next
    case ne: False
    show ?thesis
    proof (cases "slotMatch env xs slots (xs ! n)")
      case None
      then show ?thesis using False ne by (simp add: slotStep_def)
    next
      case (Some j)
      note m = slotMatch_Some [OF Some]
      have "filter (\<lambda>p. titleOf (xs ! p) = t) (slots[j := n])
          = filter (\<lambda>p. titleOf (xs ! p) = t) slots"
        by (rule filter_update_other) (use False m in auto)
      then show ?thesis using ne Some by (simp add: slotStep_def)
    qed
  qed
  then show ?thesis using f p by simp
next
  case True
  have ps: "titlePositions xs t (Suc n) = titlePositions xs t n @ [n]"
    using True by (simp add: titlePositions_Suc)
  have ne: "titleOf (xs ! n) \<noteq> []" using True t by simp
  show ?thesis
  proof (cases "titlePositions xs t n = []")
    case e: True
    then have none: "filter (\<lambda>p. titleOf (xs ! p) = t) slots = []" using f by simp
    have "slotMatch env xs slots (xs ! n) = None"
    proof (rule ccontr)
      assume "slotMatch env xs slots (xs ! n) \<noteq> None"
      then obtain j where j: "slotMatch env xs slots (xs ! n) = Some j" by blast
      note m = slotMatch_Some [OF j]
      have "slots ! j \<in> set (filter (\<lambda>p. titleOf (xs ! p) = t) slots)"
        using m(1,2) True by simp
      then show False using none by simp
    qed
    then have "fst (slotStep env xs (slots, removed) n) = slots @ [n]"
      using ne by (simp add: slotStep_def)
    then show ?thesis
      using none True e by (simp add: ps groupWinner_def)
  next
    case g: False
    let ?b = "groupWinner env xs (titlePositions xs t n)"
    have one: "filter (\<lambda>p. titleOf (xs ! p) = t) slots = [?b]" using f g by simp
    have bm: "?b \<in> set (titlePositions xs t (Suc n))"
      using groupWinner_mem [OF g, of env xs] by (simp add: ps)
    have nm: "n \<in> set (titlePositions xs t (Suc n))" by (simp add: ps)
    have w: "withinOf env (xs ! ?b) (xs ! n)" using h bm nm by blast
    have "?b \<in> set (filter (\<lambda>p. titleOf (xs ! p) = t) slots)" using one by simp
    then have "?b \<in> set slots" and bt: "titleOf (xs ! ?b) = t" by simp_all
    then obtain j0 where j0: "j0 < length slots" "slots ! j0 = ?b"
      by (auto simp: in_set_conv_nth)
    have "slotMatch env xs slots (xs ! n) \<noteq> None"
      using slotMatch_None [of env xs slots "xs ! n" j0] j0 bt True w by auto
    then obtain j where j: "slotMatch env xs slots (xs ! n) = Some j" by blast
    note m = slotMatch_Some [OF j]
    have "slots ! j \<in> set (filter (\<lambda>p. titleOf (xs ! p) = t) slots)"
      using m(1,2) True by simp
    then have sj: "slots ! j = ?b" using one by simp
    have up: "filter (\<lambda>p. titleOf (xs ! p) = t) (slots[j := n]) = [n]"
      by (rule filter_update_single [OF True m(1) _ one]) (use sj bt in simp)
    have "filter (\<lambda>p. titleOf (xs ! p) = t) (fst (slotStep env xs (slots, removed) n))
        = [pick env xs ?b n]"
      using ne j sj up one by (simp add: slotStep_def pick_def)
    then show ?thesis
      using g by (simp add: ps groupWinner_snoc)
  qed
qed

lemma group_pass:
  assumes t: "t \<noteq> []"
    and h: "\<forall>p \<in> set (titlePositions xs t m). \<forall>q \<in> set (titlePositions xs t m).
              withinOf env (xs ! p) (xs ! q)"
  shows "n \<le> m \<Longrightarrow>
     filter (\<lambda>p. titleOf (xs ! p) = t) (fst (slotPass env xs n))
       = (if titlePositions xs t n = [] then []
          else [groupWinner env xs (titlePositions xs t n)])"
proof (induction n)
  case 0
  show ?case by (simp add: slotPass_def titlePositions_def)
next
  case (Suc n)
  have sub: "set (titlePositions xs t (Suc n)) \<subseteq> set (titlePositions xs t m)"
    using Suc(2) by (rule titlePositions_mono)
  have h': "\<forall>p \<in> set (titlePositions xs t (Suc n)). \<forall>q \<in> set (titlePositions xs t (Suc n)).
              withinOf env (xs ! p) (xs ! q)"
    using h sub by blast
  have ih: "filter (\<lambda>p. titleOf (xs ! p) = t) (fst (slotPass env xs n))
       = (if titlePositions xs t n = [] then []
          else [groupWinner env xs (titlePositions xs t n)])"
    using Suc by simp
  show ?case
    using group_step [OF t h' ih, of "snd (slotPass env xs n)"] by (simp add: slotPass_Suc)
qed

text \<open>When the window test accepts any two releases of a title, one of them survives.\<close>

lemma group_collapse:
  assumes "t \<noteq> []" "titlePositions xs t (length xs) \<noteq> []"
    and "\<forall>p \<in> set (titlePositions xs t (length xs)).
           \<forall>q \<in> set (titlePositions xs t (length xs)). withinOf env (xs ! p) (xs ! q)"
  shows "filter (\<lambda>r. titleOf r = t) (dedupeResultsByTitle env xs)
           = [stampPublish env (xs ! groupWinner env xs (titlePositions xs t (length xs)))]"
proof -
  have "filter (\<lambda>r. titleOf r = t) (dedupeResultsByTitle env xs)
      = map (\<lambda>p. stampPublish env (xs ! p))
          (filter (\<lambda>p. titleOf (xs ! p) = t) (survivors env xs))"
    by (simp add: dedupe_survivors filter_map comp_def)
  then show ?thesis
    using group_pass [OF assms(1,3), of "length xs"] assms(2) by (simp add: survivors_def)
qed

lemma pair_group:
  "xs ! groupWinner env xs [i, j] = pairWinner env (xs ! i) (xs ! j)"
  by (simp add: groupWinner_def pick_def pairWinner_replaces)

lemma withinWindow_withinOf: "withinWindow env a b \<Longrightarrow> withinOf env a b"
  by (auto simp: withinWindow_def withinOf_def areReleasesWithinDays_def
      DEDUPE_MAX_PUBLISH_DIFF_DAYS_def split: option.splits)

lemma withinOf_refl: "withinOf env a a"
  by (auto simp: withinOf_def areReleasesWithinDays_def DEDUPE_MAX_PUBLISH_DIFF_DAYS_def
      MS_PER_DAY_def split: option.splits)

lemma farApart_not_withinOf: "farApart env a b \<Longrightarrow> \<not> withinOf env a b"
  using farApart_not_within [of env a b] by (simp add: withinOf_def)

text \<open>A release that is far from every other release of its title survives.\<close>

lemma isolated_survives:
  assumes k: "k < length xs"
    and far: "\<forall>q < length xs. q \<noteq> k \<and> titleOf (xs ! q) = titleOf (xs ! k) \<longrightarrow>
                farApart env (xs ! k) (xs ! q)"
  shows "k \<in> set (survivors env xs)"
proof -
  note f = slotPass_facts [of env xs "length xs"]
  have "k \<in># mset [0..<length xs]" using k by simp
  then have "k \<in># mset (survivors env xs) + mset (map fst (removals env xs))"
    using f by (simp add: survivors_def removals_def)
  then have "k \<in> set (survivors env xs) \<or> k \<in> fst ` set (removals env xs)"
    by auto
  moreover have "k \<notin> fst ` set (removals env xs)"
  proof
    assume "k \<in> fst ` set (removals env xs)"
    then obtain w where w: "(k, w) \<in> set (snd (slotPass env xs (length xs)))"
      by (auto simp: removals_def)
    then have p: "w < length xs" "k \<noteq> w" "titleOf (xs ! k) = titleOf (xs ! w)"
      "withinOf env (xs ! k) (xs ! w)"
      using f by fastforce+
    then have "farApart env (xs ! k) (xs ! w)" using far by auto
    then show False using p(4) farApart_not_withinOf by blast
  qed
  ultimately show ?thesis by blast
qed


text \<open>
  Claim C1 as stated fails for lists of three releases: a release is compared with the first
  subgroup of its title only.  Of three same-titled free releases published at day 0, day 20
  and day 10 (in this order), the third replaces the first, and the releases of day 10 and
  day 20 both survive although they are within 14 days of each other.
\<close>

theorem dedupe_three_counterexample:
  "dedupeResultsByTitle freeEnv [relDay0, relDay20, relDay10] = [relDay10, relDay20]
   \<and> titleOf relDay10 = titleOf relDay20
   \<and> withinWindow freeEnv relDay10 relDay20"
  by code_simp

text \<open>
  Claim C1, amended.  For every input release list, the output is the list of the surviving
  releases, and every release of the input either survives or is removed once.  A release
  is removed only in a comparison with a release of the same non-empty normalized title
  that the window test accepts, so that two releases whose publish instants differ by more
  than 14 days never remove each other, and a release that is more than 14 days apart from
  every other release of its title survives.  When exactly two releases of the list share
  a non-empty normalized title and publish within 14 days of each other, exactly one of
  the two survives: the one from a paid indexer when exactly one of them is paid, otherwise
  the one with the more recent publish instant (the earlier one in the list on a tie).
  More generally, when the window test accepts any two releases of a title, exactly one
  release of that title survives.  (When some releases of a title are within the window
  and others are not, a release is compared with the first subgroup of its title whose
  representative is within the window only, and two releases within 14 days of each other
  can both survive.)
\<close>

theorem dedupe_contract:
  "dedupeResultsByTitle env xs = map (\<lambda>p. stampPublish env (xs ! p)) (survivors env xs)
   \<and> mset (survivors env xs) + mset (map fst (removals env xs)) = mset [0..<length xs]
   \<and> (\<forall>(l, w) \<in> set (removals env xs).
         l < length xs \<and> w < length xs \<and> l \<noteq> w
         \<and> titleOf (xs ! l) = titleOf (xs ! w) \<and> titleOf (xs ! l) \<noteq> []
         \<and> withinOf env (xs ! l) (xs ! w)
         \<and> \<not> farApart env (xs ! l) (xs ! w) \<and> \<not> farApart env (xs ! w) (xs ! l))
   \<and> (k < length xs
        \<and> (\<forall>q < length xs. q \<noteq> k \<and> titleOf (xs ! q) = titleOf (xs ! k) \<longrightarrow>
               farApart env (xs ! k) (xs ! q)) \<longrightarrow>
        k \<in> set (survivors env xs)
        \<and> stampPublish env (xs ! k) \<in> set (dedupeResultsByTitle env xs))
   \<and> (t \<noteq> [] \<and> titlePositions xs t (length xs) = [i, j]
        \<and> withinWindow env (xs ! i) (xs ! j) \<longrightarrow>
        releasesOfTitle t (dedupeResultsByTitle env xs)
          = [stampPublish env (pairWinner env (xs ! i) (xs ! j))]
        \<and> (isResultFromPaidIndexer env (xs ! j) \<and> \<not> isResultFromPaidIndexer env (xs ! i) \<longrightarrow>
              pairWinner env (xs ! i) (xs ! j) = xs ! j)
        \<and> (isResultFromPaidIndexer env (xs ! i) \<and> \<not> isResultFromPaidIndexer env (xs ! j) \<longrightarrow>
              pairWinner env (xs ! i) (xs ! j) = xs ! i)
        \<and> (isResultFromPaidIndexer env (xs ! i) = isResultFromPaidIndexer env (xs ! j) \<longrightarrow>
              (\<forall>x y. publishOf env (xs ! i) = Some x \<and> publishOf env (xs ! j) = Some y \<longrightarrow>
                 pairWinner env (xs ! i) (xs ! j) = (if y > x then xs ! j else xs ! i))))
   \<and> (t \<noteq> [] \<and> titlePositions xs t (length xs) \<noteq> []
        \<and> (\<forall>p \<in> set (titlePositions xs t (length xs)).
             \<forall>q \<in> set (titlePositions xs t (length xs)). withinOf env (xs ! p) (xs ! q)) \<longrightarrow>
        releasesOfTitle t (dedupeResultsByTitle env xs)
          = [stampPublish env (xs ! groupWinner env xs (titlePositions xs t (length xs)))])
   \<and> (allFarApart env xs \<longrightarrow> dedupeResultsByTitle env xs = map (stampPublish env) xs)"
proof -
  note f = slotPass_facts [of env xs "length xs"]
  have c1: "dedupeResultsByTitle env xs
      = map (\<lambda>p. stampPublish env (xs ! p)) (survivors env xs)"
    by (rule dedupe_survivors)
  have c2: "mset (survivors env xs) + mset (map fst (removals env xs)) = mset [0..<length xs]"
    using f by (simp add: survivors_def removals_def)
  have c3: "\<forall>(l, w) \<in> set (removals env xs).
         l < length xs \<and> w < length xs \<and> l \<noteq> w
         \<and> titleOf (xs ! l) = titleOf (xs ! w) \<and> titleOf (xs ! l) \<noteq> []
         \<and> withinOf env (xs ! l) (xs ! w)
         \<and> \<not> farApart env (xs ! l) (xs ! w) \<and> \<not> farApart env (xs ! w) (xs ! l)"
  proof (clarify, intro conjI)
    fix l w assume m: "(l, w) \<in> set (removals env xs)"
    then have p: "l < length xs" "w < length xs" "l \<noteq> w" "titleOf (xs ! l) = titleOf (xs ! w)"
      "titleOf (xs ! l) \<noteq> []" "withinOf env (xs ! l) (xs ! w)"
      using f unfolding removals_def by fastforce+
    show "l < length xs" "w < length xs" "l \<noteq> w" "titleOf (xs ! l) = titleOf (xs ! w)"
      "titleOf (xs ! l) \<noteq> []" "withinOf env (xs ! l) (xs ! w)"
      by (rule p)+
    show "\<not> farApart env (xs ! l) (xs ! w)"
      using p(6) farApart_not_withinOf by blast
    show "\<not> farApart env (xs ! w) (xs ! l)"
      using p(6) farApart_not_withinOf withinOf_sym by blast
  qed
  have c4: "k < length xs
        \<and> (\<forall>q < length xs. q \<noteq> k \<and> titleOf (xs ! q) = titleOf (xs ! k) \<longrightarrow>
               farApart env (xs ! k) (xs ! q)) \<longrightarrow>
        k \<in> set (survivors env xs)
        \<and> stampPublish env (xs ! k) \<in> set (dedupeResultsByTitle env xs)"
    using isolated_survives [of k xs env] unfolding c1 by auto
  have c5: "releasesOfTitle t (dedupeResultsByTitle env xs)
          = [stampPublish env (pairWinner env (xs ! i) (xs ! j))]"
    if "t \<noteq> []" "titlePositions xs t (length xs) = [i, j]"
      "withinWindow env (xs ! i) (xs ! j)"
  proof -
    have w: "withinOf env (xs ! i) (xs ! j)"
      using that(3) by (rule withinWindow_withinOf)
    have "\<forall>p \<in> set (titlePositions xs t (length xs)).
           \<forall>q \<in> set (titlePositions xs t (length xs)). withinOf env (xs ! p) (xs ! q)"
      using w withinOf_sym [of env "xs ! i" "xs ! j"] withinOf_refl unfolding that(2) by simp
    from group_collapse [OF that(1) _ this] show ?thesis
      by (simp add: that(2) pair_group releasesOfTitle_def)
  qed
  have c6: "t \<noteq> [] \<and> titlePositions xs t (length xs) \<noteq> []
        \<and> (\<forall>p \<in> set (titlePositions xs t (length xs)).
             \<forall>q \<in> set (titlePositions xs t (length xs)). withinOf env (xs ! p) (xs ! q)) \<longrightarrow>
        releasesOfTitle t (dedupeResultsByTitle env xs)
          = [stampPublish env (xs ! groupWinner env xs (titlePositions xs t (length xs)))]"
    using group_collapse [of t xs env] unfolding releasesOfTitle_def by blast
  have c7: "allFarApart env xs \<longrightarrow> dedupeResultsByTitle env xs = map (stampPublish env) xs"
    using dedupe_far_apart [of env xs] by blast
  show ?thesis
    using c1 c2 c3 c4 c5 c6 c7 pairWinner_cases [of env "xs ! j" "xs ! i"] by blast
qed

theorem dedupe_contract_witness:
  "removals freeEnv listZigzag = [(0, 2)]
   \<and> withinOf freeEnv (listZigzag ! 0) (listZigzag ! 2)
   \<and> \<not> farApart freeEnv (listZigzag ! 0) (listZigzag ! 2)
   \<and> farApart freeEnv (listIsolated ! 2) (listIsolated ! 0)
   \<and> farApart freeEnv (listIsolated ! 2) (listIsolated ! 1)
   \<and> stampPublish freeEnv (listIsolated ! 2) \<in> set (dedupeResultsByTitle freeEnv listIsolated)
   \<and> titlePositions listMixed ''movie 2023 1080p web'' (length listMixed) = [0, 2]
   \<and> withinWindow freeEnv (listMixed ! 0) (listMixed ! 2)
   \<and> releasesOfTitle ''movie 2023 1080p web'' (dedupeResultsByTitle freeEnv listMixed)
       = [relDay10]
   \<and> groupWinner freeEnv listMixed [0, 2] = 2
   \<and> allFarApart freeEnv [relDay0, relDay20, relDay100]
   \<and> dedupeResultsByTitle freeEnv [relDay0, relDay20, relDay100]
       = [relDay0, relDay20, relDay100]"
proof -
  have r: "removals freeEnv listZigzag = [(0, 2)]" by code_simp
  then have m: "(0, 2) \<in> set (removals freeEnv listZigzag)" by simp
  have a: "withinOf freeEnv (listZigzag ! 0) (listZigzag ! 2)
      \<and> \<not> farApart freeEnv (listZigzag ! 0) (listZigzag ! 2)"
    using dedupe_contract [where env = freeEnv and xs = listZigzag] m by fastforce
  have f: "farApart freeEnv (listIsolated ! 2) (listIsolated ! 0)"
    "farApart freeEnv (listIsolated ! 2) (listIsolated ! 1)"
    by code_simp+
  have l: "length listIsolated = 3" by (simp add: listIsolated_def)
  have h: "\<forall>q < length listIsolated.
      q \<noteq> 2 \<and> titleOf (listIsolated ! q) = titleOf (listIsolated ! 2) \<longrightarrow>
        farApart freeEnv (listIsolated ! 2) (listIsolated ! q)"
  proof (intro allI impI)
    fix q assume "q < length listIsolated"
      and "q \<noteq> 2 \<and> titleOf (listIsolated ! q) = titleOf (listIsolated ! 2)"
    then have "q = 0 \<or> q = 1" using l by auto
    then show "farApart freeEnv (listIsolated ! 2) (listIsolated ! q)" using f by auto
  qed
  have k: "2 < length listIsolated" using l by simp
  have b: "stampPublish freeEnv (listIsolated ! 2)
      \<in> set (dedupeResultsByTitle freeEnv listIsolated)"
    using dedupe_contract [where env = freeEnv and xs = listIsolated and k = 2] k h by blast
  have p: "titlePositions listMixed ''movie 2023 1080p web'' (length listMixed) = [0, 2]"
    by code_simp
  have w: "withinWindow freeEnv (listMixed ! 0) (listMixed ! 2)" by code_simp
  have t: "''movie 2023 1080p web'' \<noteq> []" by simp
  have s: "stampPublish freeEnv (pairWinner freeEnv (listMixed ! 0) (listMixed ! 2)) = relDay10"
    by code_simp
  have c: "releasesOfTitle ''movie 2023 1080p web'' (dedupeResultsByTitle freeEnv listMixed)
      = [stampPublish freeEnv (pairWinner freeEnv (listMixed ! 0) (listMixed ! 2))]"
    using dedupe_contract [where env = freeEnv and xs = listMixed
        and t = "''movie 2023 1080p web''" and i = 0 and j = 2] p w t
    by blast
  have g: "groupWinner freeEnv listMixed [0, 2] = 2" by code_simp
  have ne: "titlePositions listMixed ''movie 2023 1080p web'' (length listMixed) \<noteq> []"
    using p by simp
  have wo: "\<forall>p \<in> set (titlePositions listMixed ''movie 2023 1080p web'' (length listMixed)).
      \<forall>q \<in> set (titlePositions listMixed ''movie 2023 1080p web'' (length listMixed)).
        withinOf freeEnv (listMixed ! p) (listMixed ! q)"
    by code_simp
  have c': "releasesOfTitle ''movie 2023 1080p web'' (dedupeResultsByTitle freeEnv listMixed)
      = [stampPublish freeEnv (listMixed ! groupWinner freeEnv listMixed
           (titlePositions listMixed ''movie 2023 1080p web'' (length listMixed)))]"
    using dedupe_contract [where env = freeEnv and xs = listMixed
        and t = "''movie 2023 1080p web''"] ne wo t
    by blast
  have fa: "allFarApart freeEnv [relDay0, relDay20, relDay100]" by code_simp
  have st: "map (stampPublish freeEnv) [relDay0, relDay20, relDay100]
      = [relDay0, relDay20, relDay100]"
    by code_simp
  have d: "dedupeResultsByTitle freeEnv [relDay0, relDay20, relDay100]
       = [relDay0, relDay20, relDay100]"
    using dedupe_contract [where env = freeEnv and xs = "[relDay0, relDay20, relDay100]"] fa st
    by metis
  show ?thesis
    using r a f b p w c s g fa d by simp
qed

text \<open>
  Claim C10 as stated fails for lists of three releases: the undated paid release is
  collapsed with the first subgroup of its title (day 0), and survives next to the
  same-titled release of day 100.
\<close>

theorem dedupe_unknown_counterexample:
  "dedupeResultsByTitle paidEnv [relDay0, relDay100, relUndatedPaid]
     = [relUndatedPaid, relDay100]
   \<and> titleOf relUndatedPaid = titleOf relDay100
   \<and> publishOf paidEnv relUndatedPaid = None"
  by code_simp

text \<open>
  Claim C10, amended: whenever the pass compares two publish instants of which at least one
  is unknown, it treats them as within the 14-day window.  A release with an unknown publish
  instant therefore never opens a subgroup of its own when its non-empty normalized title
  already has one: it is collapsed with the first subgroup of its title and the output does
  not grow.  A list of two releases sharing a non-empty normalized title, at least one
  undated, collapses to a single survivor; the undated release removes a same-titled unpaid
  release of any age when it is paid, and is removed by a same-titled release of any age
  when their paid status is equal.
\<close>

theorem dedupe_unknown_contract:
  "(p = None \<or> q = None \<longrightarrow> areReleasesWithinDays p q DEDUPE_MAX_PUBLISH_DIFF_DAYS)
   \<and> (publishOf env c = None \<and> titleOf c \<noteq> [] \<and> (\<exists>x \<in> set xs. titleOf x = titleOf c) \<longrightarrow>
        length (dedupeResultsByTitle env (xs @ [c])) = length (dedupeResultsByTitle env xs))
   \<and> (titleOf a = titleOf b \<and> titleOf a \<noteq> []
        \<and> (publishOf env a = None \<or> publishOf env b = None) \<longrightarrow>
        dedupeResultsByTitle env [a, b] = [stampPublish env (pairWinner env a b)]
        \<and> (publishOf env b = None \<and> isResultFromPaidIndexer env b
              \<and> \<not> isResultFromPaidIndexer env a \<longrightarrow> pairWinner env a b = b)
        \<and> (publishOf env b = None
              \<and> isResultFromPaidIndexer env a = isResultFromPaidIndexer env b \<longrightarrow>
              pairWinner env a b = a)
        \<and> (publishOf env a = None \<and> publishOf env b \<noteq> None
              \<and> isResultFromPaidIndexer env a = isResultFromPaidIndexer env b \<longrightarrow>
              pairWinner env a b = b))"
  using within_unknown [of p q] within_unknown [of "publishOf env a" "publishOf env b"]
    unknown_joins_first_subgroup [of env c xs] pair_collapse [of a b env]
    pairWinner_cases [of env b a]
  by blast

theorem dedupe_unknown_contract_witness:
  "areReleasesWithinDays None (Some 1700000000000) DEDUPE_MAX_PUBLISH_DIFF_DAYS
   \<and> publishOf paidEnv relUndatedPaid = None \<and> titleOf relUndatedPaid \<noteq> []
   \<and> titleOf relDay100 = titleOf relUndatedPaid
   \<and> length (dedupeResultsByTitle paidEnv ([relDay0, relDay100] @ [relUndatedPaid]))
       = length (dedupeResultsByTitle paidEnv [relDay0, relDay100])
   \<and> isResultFromPaidIndexer paidEnv relUndatedPaid
   \<and> \<not> isResultFromPaidIndexer paidEnv relDay100
   \<and> dedupeResultsByTitle paidEnv [relDay100, relUndatedPaid] = [relUndatedPaid]
   \<and> dedupeResultsByTitle freeEnv [relDay100, relUndatedPaid] = [relDay100]
   \<and> dedupeResultsByTitle freeEnv [relUndatedPaid, relDay0] = [relDay0]"
proof -
  have u: "publishOf paidEnv relUndatedPaid = None" "publishOf freeEnv relUndatedPaid = None"
    "titleOf relUndatedPaid \<noteq> []" "titleOf relDay100 \<noteq> []"
    "titleOf relDay100 = titleOf relUndatedPaid" "titleOf relUndatedPaid = titleOf relDay0"
    by code_simp+
  have x: "\<exists>x \<in> set [relDay0, relDay100]. titleOf x = titleOf relUndatedPaid"
    using u(5) by simp
  have i: "isResultFromPaidIndexer paidEnv relUndatedPaid"
    "\<not> isResultFromPaidIndexer paidEnv relDay100"
    by code_simp+
  have s: "stampPublish paidEnv (pairWinner paidEnv relDay100 relUndatedPaid) = relUndatedPaid"
    "stampPublish freeEnv (pairWinner freeEnv relDay100 relUndatedPaid) = relDay100"
    "stampPublish freeEnv (pairWinner freeEnv relUndatedPaid relDay0) = relDay0"
    by code_simp+
  have r0: "areReleasesWithinDays None (Some 1700000000000) DEDUPE_MAX_PUBLISH_DIFF_DAYS"
    using dedupe_unknown_contract [of None "Some 1700000000000"] by blast
  have r1: "length (dedupeResultsByTitle paidEnv ([relDay0, relDay100] @ [relUndatedPaid]))
       = length (dedupeResultsByTitle paidEnv [relDay0, relDay100])"
    using dedupe_unknown_contract [of _ _ paidEnv relUndatedPaid "[relDay0, relDay100]"] u x
    by blast
  have r2: "dedupeResultsByTitle paidEnv [relDay100, relUndatedPaid] = [relUndatedPaid]"
    using dedupe_unknown_contract [of _ _ paidEnv _ _ relDay100 relUndatedPaid] u s by metis
  have r3: "dedupeResultsByTitle freeEnv [relDay100, relUndatedPaid] = [relDay100]"
    using dedupe_unknown_contract [of _ _ freeEnv _ _ relDay100 relUndatedPaid] u s by metis
  have r4: "dedupeResultsByTitle freeEnv [relUndatedPaid, relDay0] = [relDay0]"
    using dedupe_unknown_contract [of _ _ freeEnv _ _ relUndatedPaid relDay0] u s by metis
  show ?thesis using r0 r1 r2 r3 r4 u i by blast
qed


section \<open>Triage runner: the time budget\<close>

lemma map_of_mapSet: "map_of (mapSet k v m) = (map_of m)(k \<mapsto> v)"
  by (induction m) (auto simp: fun_eq_iff)

lemma mapHas_mapSet [simp]: "mapHas k (mapSet k' v m) = (k = k' \<or> mapHas k m)"
  by (auto simp: mapHas_def map_of_mapSet)

lemma mapHas_Nil [simp]: "\<not> mapHas k []"
  by (simp add: mapHas_def)







































end
